theory Spec2Isabelle
  imports Main "HOL-Library.Word" "HOL-Library.Multiset"
begin

section \<open>Data model\<close>

text \<open>
  The ancestor builder of tsinfer (the C library file defining
  \<^verbatim>\<open>ancestor_builder_*\<close>) and the \<^verbatim>\<open>Threader_run\<close> method of the
  Python extension module.

  The header \<^verbatim>\<open>tsinfer.h\<close> is not part of the sources at hand, so the scalar
  types are fixed here.

  Modelled from the spec: \<^verbatim>\<open>allele_t\<close> is one byte, taking the values 0, 1 and -1,
  the latter stored as 0xFF; its numeric value is read as a signed byte (\<open>sint\<close>).
  Site identifiers (\<^verbatim>\<open>site_id_t\<close>, a 32-bit index into the sites array) are
  natural numbers; sample identifiers (\<^verbatim>\<open>node_id_t\<close>) are integers, because the
  code stores the sentinel -1 in the sample set. Values of type \<^verbatim>\<open>size_t\<close> are
  natural numbers below \<open>2 ^ 64\<close>, and the two places where the code subtracts or
  accumulates them are written with the wrap-around.
\<close>

type_synonym allele_t = "8 word"
type_synonym site_id_t = nat
type_synonym node_id_t = int

text \<open>
  \<open>TSI_ERR_NO_MEMORY\<close> is the only error code the functions return. \<open>Fault\<close> stands
  for an execution that leaves defined behaviour in C (a null or out-of-bounds access):
  the model stops there instead of inventing a result.
\<close>

datatype error = TSI_ERR_NO_MEMORY | Fault

definition size_sub :: "nat \<Rightarrow> nat \<Rightarrow> nat" where
  "size_sub a b = nat ((int a - int b) mod 2 ^ 64)"

record site_t =
  site_frequency :: nat
  site_genotypes :: "nat option"

text \<open>
  A \<^verbatim>\<open>pattern_map_t\<close>: the address of the canonical genotype buffer in the arena,
  the number of samples, the linked list of sites (head first) and its length.
\<close>

record pattern_map_t =
  pm_genotypes :: nat
  pm_num_samples :: nat
  pm_sites :: "site_id_t list"
  pm_num_sites :: nat

text \<open>
  A descriptor's \<^verbatim>\<open>focal_sites\<close> pointer is a block of the arena and an offset
  into it; \<open>None\<close> is the null pointer left by \<^verbatim>\<open>calloc\<close>.
\<close>

record ancestor_descriptor_t =
  d_frequency :: nat
  d_num_focal_sites :: nat
  d_focal_sites :: "(nat \<times> nat) option"

text \<open>
  Modelled from the spec: the block allocator (its source is absent) is an arena whose
  \<^verbatim>\<open>get\<close> returns fresh storage and fails only when the system allocator fails.
  The arena keeps the genotype buffers and the focal-site arrays in two stores, an
  address being the index of a block; the other records allocated from it (tree nodes,
  map elements, list nodes) are held by value in the structures that own them. Whether
  the next request succeeds is read from \<open>outcomes\<close>, the outcomes of the coming
  requests; once the list is used up every request succeeds.
\<close>

record block_allocator_t =
  genotype_store :: "allele_t list list"
  focal_store :: "site_id_t list list"
  outcomes :: "bool list"

record ancestor_builder_t =
  num_samples :: nat
  num_sites :: nat
  flags :: int
  sites :: "site_t list"
  frequency_map :: "pattern_map_t list list"
  descriptors :: "ancestor_descriptor_t list"
  num_ancestors :: nat
  allocator :: block_allocator_t

fun next_outcome :: "bool list \<Rightarrow> bool \<times> bool list" where
  "next_outcome [] = (True, [])"
| "next_outcome (b # bs) = (b, bs)"

definition block_allocator_get :: "block_allocator_t \<Rightarrow> bool \<times> block_allocator_t" where
  "block_allocator_get a =
     (case next_outcome (outcomes a) of (ok, rest) \<Rightarrow> (ok, a\<lparr>outcomes := rest\<rparr>))"

definition block_allocator_get_alleles ::
  "block_allocator_t \<Rightarrow> nat \<Rightarrow> nat option \<times> block_allocator_t" where
  "block_allocator_get_alleles a n =
     (case block_allocator_get a of (ok, a') \<Rightarrow>
        if ok then (Some (length (genotype_store a')),
                    a'\<lparr>genotype_store := genotype_store a' @ [replicate n 0]\<rparr>)
        else (None, a'))"

definition block_allocator_get_sites ::
  "block_allocator_t \<Rightarrow> nat \<Rightarrow> nat option \<times> block_allocator_t" where
  "block_allocator_get_sites a n =
     (case block_allocator_get a of (ok, a') \<Rightarrow>
        if ok then (Some (length (focal_store a')),
                    a'\<lparr>focal_store := focal_store a' @ [replicate n 0]\<rparr>)
        else (None, a'))"

section \<open>The pattern map\<close>

text \<open>
  \<^verbatim>\<open>memcmp\<close> over the first \<open>n\<close> bytes, bytes compared as unsigned; only the
  sign of the result is specified in C, so the model returns -1, 0 or 1.
\<close>

fun memcmp :: "8 word list \<Rightarrow> 8 word list \<Rightarrow> nat \<Rightarrow> int" where
  "memcmp (x # xs) (y # ys) (Suc n) =
     (if x = y then memcmp xs ys n else if unat x < unat y then - 1 else 1)"
| "memcmp _ _ _ = 0"

definition cmp_pattern_map :: "allele_t list \<Rightarrow> nat \<Rightarrow> allele_t list \<Rightarrow> int" where
  "cmp_pattern_map ia_genotypes ia_num_samples ib_genotypes =
     memcmp ia_genotypes ib_genotypes (ia_num_samples * 1)"

text \<open>
  Modelled from the spec: the ordered map (\<^verbatim>\<open>avl.h\<close> is absent) keeps its entries in
  key order, smallest first; \<open>search\<close> returns the entry with an equal key, \<open>insert\<close>
  keeps the existing node when an equal key is offered (and returns null). A tree is the
  list of its items in traversal order and a node is its position there. The argument
  \<open>cmp\<close> is the comparison of the searched or inserted key with an item.
\<close>

fun avl_search :: "(pattern_map_t \<Rightarrow> int) \<Rightarrow> pattern_map_t list \<Rightarrow> nat option" where
  "avl_search cmp [] = None"
| "avl_search cmp (e # es) =
     (if cmp e = 0 then Some 0 else map_option Suc (avl_search cmp es))"

fun avl_insert_node ::
  "(pattern_map_t \<Rightarrow> int) \<Rightarrow> pattern_map_t list \<Rightarrow> pattern_map_t
     \<Rightarrow> nat option \<times> pattern_map_t list" where
  "avl_insert_node cmp [] x = (Some 0, [x])"
| "avl_insert_node cmp (e # es) x =
     (if cmp e = 0 then (None, e # es)
      else if cmp e < 0 then (Some 0, x # e # es)
      else (case avl_insert_node cmp es x of (r, es') \<Rightarrow> (map_option Suc r, e # es')))"

section \<open>Reading a site's genotypes\<close>

text \<open>
  \<^verbatim>\<open>self->sites[l].genotypes\<close> followed through the arena; \<open>None\<close> when the site index
  is out of range or the pointer is null or dangling.
\<close>

definition site_genotypes_buf :: "ancestor_builder_t \<Rightarrow> site_id_t \<Rightarrow> allele_t list option" where
  "site_genotypes_buf self l =
     (if l < length (sites self) then
        (case site_genotypes (sites self ! l) of
           None \<Rightarrow> None
         | Some a \<Rightarrow>
             if a < length (genotype_store (allocator self))
             then Some (genotype_store (allocator self) ! a) else None)
      else None)"

definition ancestor_builder_get_consistent_samples ::
  "ancestor_builder_t \<Rightarrow> site_id_t \<Rightarrow> error + node_id_t list" where
  "ancestor_builder_get_consistent_samples self site =
     (case site_genotypes_buf self site of
        None \<Rightarrow> Inl Fault
      | Some genotypes \<Rightarrow>
          Inr (map int (filter (\<lambda>j. genotypes ! j = 1) [0..<num_samples self])))"

section \<open>compute older sites\<close>

text \<open>
  The local state of the loop of \<^verbatim>\<open>ancestor_builder_compute_older_sites\<close>: the loop
  counter \<open>j\<close>, the live prefix of \<^verbatim>\<open>sample_set\<close> (its length is
  \<^verbatim>\<open>sample_set_size\<close>), the \<^verbatim>\<open>disagree\<close> flags, the ancestor being written and
  \<^verbatim>\<open>last_site\<close>.
\<close>

record older_state =
  os_j :: nat
  os_sample_set :: "node_id_t list"
  os_disagree :: "bool list"
  os_ancestor :: "allele_t list"
  os_last_site :: site_id_t

text \<open>\<^verbatim>\<open>ones += genotypes[sample_set[k]]\<close> over the sample set, in \<^verbatim>\<open>size_t\<close>.\<close>

definition count_ones :: "allele_t list \<Rightarrow> node_id_t list \<Rightarrow> nat" where
  "count_ones genotypes sample_set =
     nat ((\<Sum>u\<leftarrow>sample_set. sint (genotypes ! nat u)) mod 2 ^ 64)"

definition compute_consensus :: "allele_t list \<Rightarrow> node_id_t list \<Rightarrow> allele_t" where
  "compute_consensus genotypes sample_set =
     (let ones = count_ones genotypes sample_set;
          zeros = size_sub (length sample_set) ones
      in if ones \<ge> zeros then 1 else 0)"

text \<open>The loop that overwrites the samples to remove with -1.\<close>

definition mark_removed ::
  "bool list \<Rightarrow> allele_t list \<Rightarrow> allele_t \<Rightarrow> node_id_t list \<Rightarrow> node_id_t list" where
  "mark_removed disagree genotypes consensus sample_set =
     map (\<lambda>u. if disagree ! nat u \<and> genotypes ! nat u \<noteq> consensus then - 1 else u) sample_set"

definition repack :: "node_id_t list \<Rightarrow> node_id_t list" where
  "repack sample_set = filter (\<lambda>u. u \<noteq> - 1) sample_set"

text \<open>The loop that sets the flags of the remaining samples.\<close>

definition set_disagree ::
  "allele_t list \<Rightarrow> allele_t \<Rightarrow> node_id_t list \<Rightarrow> bool list \<Rightarrow> bool list" where
  "set_disagree genotypes consensus sample_set disagree =
     fold (\<lambda>u d. d[nat u := (genotypes ! nat u \<noteq> consensus)]) sample_set disagree"

text \<open>
  The loop over \<^verbatim>\<open>older_sites[j..]\<close>; \<open>m\<close> is \<^verbatim>\<open>min_sample_set_size\<close>. On
  \<^verbatim>\<open>break\<close> the counter stays at the site where the loop stopped.
\<close>

fun older_sites_loop ::
  "ancestor_builder_t \<Rightarrow> nat \<Rightarrow> site_id_t list \<Rightarrow> older_state \<Rightarrow> error + older_state" where
  "older_sites_loop self m [] st = Inr st"
| "older_sites_loop self m (l # ls) st =
     (case site_genotypes_buf self l of
        None \<Rightarrow> Inl Fault
      | Some genotypes \<Rightarrow>
          let consensus = compute_consensus genotypes (os_sample_set st);
              S' = repack (mark_removed (os_disagree st) genotypes consensus (os_sample_set st))
          in if length S' \<le> m then Inr (st\<lparr>os_sample_set := S'\<rparr>)
             else if \<not> l < length (os_ancestor st) then Inl Fault
             else older_sites_loop self m ls
                    (st\<lparr>os_j := os_j st + 1,
                        os_sample_set := S',
                        os_disagree := set_disagree genotypes consensus S' (os_disagree st),
                        os_ancestor := (os_ancestor st)[l := consensus],
                        os_last_site := l\<rparr>))"

text \<open>
  The state at the loop's entry: \<^verbatim>\<open>last_site = focal_site\<close>, the flags zeroed by
  \<^verbatim>\<open>calloc\<close>.
\<close>

definition older_entry_state ::
  "ancestor_builder_t \<Rightarrow> site_id_t \<Rightarrow> allele_t list \<Rightarrow> node_id_t list \<Rightarrow> older_state" where
  "older_entry_state self focal_site ancestor sample_set =
     \<lparr>os_j = 0, os_sample_set = sample_set,
      os_disagree = replicate (num_samples self) False,
      os_ancestor = ancestor, os_last_site = focal_site\<rparr>"

text \<open>
  \<open>calloc_ok\<close> tells whether the allocation of the flags succeeds. The result is the
  final state, from which the caller reads the ancestor and \<^verbatim>\<open>*last_site_ret\<close>.
\<close>

definition ancestor_builder_compute_older_sites ::
  "bool \<Rightarrow> ancestor_builder_t \<Rightarrow> site_id_t \<Rightarrow> allele_t list \<Rightarrow> site_id_t list
     \<Rightarrow> node_id_t list \<Rightarrow> error + older_state" where
  "ancestor_builder_compute_older_sites calloc_ok self focal_site ancestor older_sites sample_set =
     (if \<not> calloc_ok then Inl TSI_ERR_NO_MEMORY
      else older_sites_loop self (length sample_set div 2) older_sites
             (older_entry_state self focal_site ancestor sample_set))"

section \<open>make ancestor\<close>

definition memset :: "allele_t list \<Rightarrow> allele_t \<Rightarrow> nat \<Rightarrow> allele_t list" where
  "memset buf c n = replicate n c @ drop n buf"

text \<open>The two loops that set the younger sites between the focal site and the last site to 0.\<close>

definition fill_younger ::
  "ancestor_builder_t \<Rightarrow> nat \<Rightarrow> site_id_t list \<Rightarrow> allele_t list \<Rightarrow> allele_t list" where
  "fill_younger self focal_site_frequency ls ancestor =
     fold (\<lambda>l a. if site_frequency (sites self ! l) \<le> focal_site_frequency then a[l := 0] else a)
       ls ancestor"

text \<open>
  \<open>mem\<close> holds the outcomes of the four allocations of one call, in program order: the
  two scratch arrays and the flags of the two calls of compute older sites. The caller's
  buffer \<open>ancestor\<close> must hold \<^verbatim>\<open>num_sites\<close> alleles. The result is
  \<^verbatim>\<open>(*ret_start, *ret_end)\<close> and the buffer.
\<close>

definition ancestor_builder_make_ancestor ::
  "bool list \<Rightarrow> ancestor_builder_t \<Rightarrow> site_id_t list \<Rightarrow> allele_t list
     \<Rightarrow> error + (site_id_t \<times> site_id_t \<times> allele_t list)" where
  "ancestor_builder_make_ancestor mem self focal_sites ancestor =
     (let (older_ok, mem1) = next_outcome mem;
          (sample_ok, mem2) = next_outcome mem1;
          (right_ok, mem3) = next_outcome mem2;
          (left_ok, mem4) = next_outcome mem3
      in if \<not> older_ok \<or> \<not> sample_ok then Inl TSI_ERR_NO_MEMORY
         else
           (case focal_sites of
              [] \<Rightarrow> Inl Fault
            | focal_site # _ \<Rightarrow>
                if \<not> focal_site < length (sites self) \<or> length ancestor < num_sites self
                   \<or> \<not> focal_site < num_sites self
                then Inl Fault
                else
                  (let focal_site_frequency = site_frequency (sites self ! focal_site);
                       a0 = (memset ancestor 255 (num_sites self))[focal_site := 1];
                       older_right =
                         filter (\<lambda>l. site_frequency (sites self ! l) > focal_site_frequency)
                           [focal_site + 1 ..< num_sites self]
                   in (case ancestor_builder_get_consistent_samples self focal_site of
                         Inl e \<Rightarrow> Inl e
                       | Inr sample_set \<Rightarrow>
                           (case ancestor_builder_compute_older_sites right_ok self focal_site a0
                                   older_right sample_set of
                              Inl e \<Rightarrow> Inl e
                            | Inr st1 \<Rightarrow>
                                (let a1 = fill_younger self focal_site_frequency
                                            [focal_site + 1 ..< os_last_site st1] (os_ancestor st1);
                                     ret_end = os_last_site st1 + 1;
                                     older_left =
                                       filter (\<lambda>l. site_frequency (sites self ! l)
                                                      > focal_site_frequency)
                                         (rev [0 ..< focal_site])
                                 in (case ancestor_builder_get_consistent_samples self focal_site of
                                       Inl e \<Rightarrow> Inl e
                                     | Inr sample_set2 \<Rightarrow>
                                         (case ancestor_builder_compute_older_sites left_ok self
                                                 focal_site a1 older_left sample_set2 of
                                            Inl e \<Rightarrow> Inl e
                                          | Inr st2 \<Rightarrow>
                                              (let a2 = fill_younger self focal_site_frequency
                                                          [os_last_site st2 + 1 ..< focal_site]
                                                          (os_ancestor st2)
                                               in Inr (os_last_site st2, ret_end, a2))))))))))"

section \<open>alloc and add site\<close>

text \<open>
  \<open>mem\<close> holds the outcomes of the three \<^verbatim>\<open>calloc\<close>s and of the allocation of
  the arena's first chunk; what is left of it is the arena's outcomes. The assertion
  \<^verbatim>\<open>num_samples > 1\<close> is a precondition of the callers.
\<close>

definition ancestor_builder_alloc ::
  "bool list \<Rightarrow> nat \<Rightarrow> nat \<Rightarrow> int \<Rightarrow> error + ancestor_builder_t" where
  "ancestor_builder_alloc mem num_samples' num_sites' flags' =
     (case next_outcome mem of (sites_ok, mem1) \<Rightarrow>
      case next_outcome mem1 of (map_ok, mem2) \<Rightarrow>
      case next_outcome mem2 of (descriptors_ok, mem3) \<Rightarrow>
      if \<not> sites_ok \<or> \<not> map_ok \<or> \<not> descriptors_ok then Inl TSI_ERR_NO_MEMORY
      else case next_outcome mem3 of (arena_ok, mem4) \<Rightarrow>
        if \<not> arena_ok then Inl TSI_ERR_NO_MEMORY
        else Inr \<lparr>num_samples = num_samples', num_sites = num_sites', flags = flags',
                  sites = replicate num_sites' \<lparr>site_frequency = 0, site_genotypes = None\<rparr>,
                  frequency_map = replicate (num_samples' + 1) [],
                  descriptors = replicate num_sites'
                    \<lparr>d_frequency = 0, d_num_focal_sites = 0, d_focal_sites = None\<rparr>,
                  num_ancestors = 0,
                  allocator = \<lparr>genotype_store = [], focal_store = [], outcomes = mem4\<rparr>\<rparr>)"

text \<open>
  The comparison handed to the tree: \<^verbatim>\<open>cmp_pattern_map\<close> of a key with genotypes
  \<open>key\<close> against a stored element, whose genotypes are read from the arena.
\<close>

definition key_cmp :: "ancestor_builder_t \<Rightarrow> allele_t list \<Rightarrow> pattern_map_t \<Rightarrow> int" where
  "key_cmp self key e =
     cmp_pattern_map key (num_samples self) (genotype_store (allocator self) ! pm_genotypes e)"

text \<open>
  The tail of add site, common to both branches: count the site in the map element and
  push it on the front of the element's list. \<open>node\<close> is the element's place in the
  tree.
\<close>

definition add_site_link ::
  "ancestor_builder_t \<Rightarrow> nat \<Rightarrow> nat \<Rightarrow> site_id_t \<Rightarrow> error + ancestor_builder_t" where
  "add_site_link self frequency node l =
     (let pattern_map = frequency_map self ! frequency;
          map_elem = pattern_map ! node;
          map_elem1 = map_elem\<lparr>pm_num_sites := pm_num_sites map_elem + 1\<rparr>
      in case block_allocator_get (allocator self) of (list_node_ok, al) \<Rightarrow>
           if \<not> list_node_ok then Inl TSI_ERR_NO_MEMORY
           else Inr (self\<lparr>allocator := al,
                          frequency_map := (frequency_map self)
                            [frequency := pattern_map
                               [node := map_elem1\<lparr>pm_sites := l # pm_sites map_elem1\<rparr>]]\<rparr>))"

text \<open>
  The same tail when the insertion returned null (an equal key was in the tree): the
  element counted and linked is then not in the tree, and only the arena changes.
\<close>

definition add_site_orphan :: "ancestor_builder_t \<Rightarrow> error + ancestor_builder_t" where
  "add_site_orphan self =
     (case block_allocator_get (allocator self) of (list_node_ok, al) \<Rightarrow>
        if \<not> list_node_ok then Inl TSI_ERR_NO_MEMORY else Inr (self\<lparr>allocator := al\<rparr>))"

text \<open>
  The caller's buffer \<open>genotypes\<close> must hold \<^verbatim>\<open>num_samples\<close> alleles. Indexing the
  frequency map or the sites out of range (the two assertions) is a fault.
\<close>

definition ancestor_builder_add_site ::
  "ancestor_builder_t \<Rightarrow> site_id_t \<Rightarrow> nat \<Rightarrow> allele_t list \<Rightarrow> error + ancestor_builder_t" where
  "ancestor_builder_add_site self l frequency genotypes =
     (if \<not> frequency < length (frequency_map self) \<or> \<not> l < length (sites self) then Inl Fault
      else
        (let self1 = self\<lparr>sites := (sites self)[l := (sites self ! l)\<lparr>site_frequency := frequency\<rparr>]\<rparr>
         in if frequency > 1 then
              (if length genotypes < num_samples self then Inl Fault
               else
                 (let pattern_map = frequency_map self1 ! frequency
                  in (case avl_search (key_cmp self1 genotypes) pattern_map of
                        None \<Rightarrow>
                          (let (avl_node_ok, al1) = block_allocator_get (allocator self1);
                               (map_elem_ok, al2) = block_allocator_get al1;
                               (buf, al3) = block_allocator_get_alleles al2 (num_samples self1)
                           in (case buf of
                                 None \<Rightarrow> Inl TSI_ERR_NO_MEMORY
                               | Some a \<Rightarrow>
                                   if \<not> avl_node_ok \<or> \<not> map_elem_ok then Inl TSI_ERR_NO_MEMORY
                                   else
                                     (let al4 = al3\<lparr>genotype_store := (genotype_store al3)
                                                     [a := take (num_samples self1) genotypes]\<rparr>;
                                          self2 = self1\<lparr>allocator := al4,
                                                        sites := (sites self1)
                                                          [l := (sites self1 ! l)
                                                             \<lparr>site_genotypes := Some a\<rparr>]\<rparr>;
                                          map_elem = \<lparr>pm_genotypes = a,
                                                      pm_num_samples = num_samples self2,
                                                      pm_sites = [], pm_num_sites = 0\<rparr>;
                                          (avl_node, pattern_map') =
                                            avl_insert_node (key_cmp self2 (genotype_store al4 ! a))
                                              pattern_map map_elem
                                      in (case avl_node of
                                            None \<Rightarrow> add_site_orphan self2
                                          | Some node \<Rightarrow>
                                              add_site_link
                                                (self2\<lparr>frequency_map := (frequency_map self2)
                                                          [frequency := pattern_map']\<rparr>)
                                                frequency node l))))
                      | Some node \<Rightarrow>
                          add_site_link
                            (self1\<lparr>sites := (sites self1)
                               [l := (sites self1 ! l)
                                  \<lparr>site_genotypes := Some (pm_genotypes (pattern_map ! node))\<rparr>]\<rparr>)
                            frequency node l)))
            else Inr self1))"

text \<open>A sequence of calls of add site, each given as (site, frequency, genotypes).\<close>

fun add_sites ::
  "(site_id_t \<times> nat \<times> allele_t list) list \<Rightarrow> ancestor_builder_t \<Rightarrow> error + ancestor_builder_t" where
  "add_sites [] self = Inr self"
| "add_sites ((l, frequency, genotypes) # calls) self =
     (case ancestor_builder_add_site self l frequency genotypes of
        Inl e \<Rightarrow> Inl e
      | Inr self' \<Rightarrow> add_sites calls self')"

section \<open>finalise\<close>

text \<open>
  The loop that copies an element's list into its array from the back:
  \<^verbatim>\<open>focal_sites[k] = s->site; k--\<close>, with \<open>k\<close> of type \<^verbatim>\<open>size_t\<close>.
\<close>

fun fill_focal_sites :: "site_id_t list \<Rightarrow> nat \<Rightarrow> site_id_t list \<Rightarrow> error + site_id_t list" where
  "fill_focal_sites arr k [] = Inr arr"
| "fill_focal_sites arr k (s # ss) =
     (if k < length arr then fill_focal_sites (arr[k := s]) (size_sub k 1) ss else Inl Fault)"

text \<open>
  The loop that splits an element's descriptor, one iteration for each \<open>k\<close> of \<open>ks\<close>;
  \<open>cur\<close> is the index of the descriptor the local pointer points to, \<open>block\<close> the
  element's array and \<open>n\<close> its \<^verbatim>\<open>num_sites\<close>.
\<close>

fun split_descriptors ::
  "nat \<Rightarrow> nat \<Rightarrow> nat \<Rightarrow> nat list \<Rightarrow> nat \<Rightarrow> ancestor_builder_t \<Rightarrow> error + ancestor_builder_t" where
  "split_descriptors j block n [] cur self = Inr self"
| "split_descriptors j block n (k # ks) cur self =
     (case d_focal_sites (descriptors self ! cur) of
        None \<Rightarrow> Inl Fault
      | Some (block0, offset0) \<Rightarrow>
          (let ds = (descriptors self)
                      [cur := (descriptors self ! cur)
                         \<lparr>d_num_focal_sites := size_sub (k + 1) offset0\<rparr>];
               new = num_ancestors self
           in if \<not> new < length ds then Inl Fault
              else split_descriptors j block n ks new
                     (self\<lparr>num_ancestors := new + 1,
                           descriptors := ds
                             [new := (ds ! new)
                                \<lparr>d_frequency := j,
                                 d_num_focal_sites := size_sub (size_sub n k) 1,
                                 d_focal_sites := Some (block, k + 1)\<rparr>]\<rparr>)))"

text \<open>The body of the inner loop of finalise, for one map element at frequency \<open>j\<close>.\<close>

definition finalise_entry ::
  "nat \<Rightarrow> pattern_map_t \<Rightarrow> ancestor_builder_t \<Rightarrow> error + ancestor_builder_t" where
  "finalise_entry j map_elem self =
     (let cur = num_ancestors self;
          n = pm_num_sites map_elem
      in if \<not> cur < length (descriptors self) then Inl Fault
         else
           (let (focal_sites, al) = block_allocator_get_sites (allocator self) n
            in (case focal_sites of
                  None \<Rightarrow> Inl TSI_ERR_NO_MEMORY
                | Some block \<Rightarrow>
                    (case fill_focal_sites (focal_store al ! block) (size_sub n 1)
                            (pm_sites map_elem) of
                       Inl e \<Rightarrow> Inl e
                     | Inr arr \<Rightarrow>
                         (let self1 =
                                self\<lparr>num_ancestors := cur + 1,
                                     descriptors := (descriptors self)
                                       [cur := (descriptors self ! cur)
                                          \<lparr>d_frequency := j,
                                           d_num_focal_sites := n,
                                           d_focal_sites := Some (block, 0)\<rparr>],
                                     allocator :=
                                       al\<lparr>focal_store := (focal_store al)[block := arr]\<rparr>\<rparr>
                          in (case (if n > 1
                                    then ancestor_builder_get_consistent_samples self1 (arr ! 0)
                                    else Inr []) of
                                Inl e \<Rightarrow> Inl e
                              | Inr _ \<Rightarrow>
                                  split_descriptors j block n [0 ..< size_sub n 1] cur self1))))))"

fun finalise_bucket ::
  "nat \<Rightarrow> pattern_map_t list \<Rightarrow> ancestor_builder_t \<Rightarrow> error + ancestor_builder_t" where
  "finalise_bucket j [] self = Inr self"
| "finalise_bucket j (map_elem # rest) self =
     (case finalise_entry j map_elem self of
        Inl e \<Rightarrow> Inl e
      | Inr self' \<Rightarrow> finalise_bucket j rest self')"

fun finalise_frequencies :: "nat list \<Rightarrow> ancestor_builder_t \<Rightarrow> error + ancestor_builder_t" where
  "finalise_frequencies [] self = Inr self"
| "finalise_frequencies (j # js) self =
     (case finalise_bucket j (frequency_map self ! j) self of
        Inl e \<Rightarrow> Inl e
      | Inr self' \<Rightarrow> finalise_frequencies js self')"

text \<open>
  \<open>malloc_ok\<close> tells whether the allocation of the scratch array succeeds. The outer
  loop runs \<open>j\<close> from \<^verbatim>\<open>num_samples\<close> down to 2.
\<close>

definition ancestor_builder_finalise :: "bool \<Rightarrow> ancestor_builder_t \<Rightarrow> error + ancestor_builder_t" where
  "ancestor_builder_finalise malloc_ok self =
     (if \<not> malloc_ok then Inl TSI_ERR_NO_MEMORY
      else finalise_frequencies (rev [2 ..< Suc (num_samples self)]) (self\<lparr>num_ancestors := 0\<rparr>))"

text \<open>The descriptors emitted, and the focal sites a descriptor designates.\<close>

definition emitted :: "ancestor_builder_t \<Rightarrow> ancestor_descriptor_t list" where
  "emitted self = take (num_ancestors self) (descriptors self)"

definition descriptor_focal_sites :: "ancestor_builder_t \<Rightarrow> ancestor_descriptor_t \<Rightarrow> site_id_t list" where
  "descriptor_focal_sites self d =
     (case d_focal_sites d of
        None \<Rightarrow> []
      | Some (block, offset) \<Rightarrow>
          take (d_num_focal_sites d) (drop offset (focal_store (allocator self) ! block)))"

section \<open>Threader run in the extension module\<close>

text \<open>
  The Python objects, as far as \<^verbatim>\<open>Threader_run\<close> reads them. The library header
  is absent, so of the library's structures only the two counts of the reference panel
  appear; a null pointer is \<open>None\<close>.
\<close>

record reference_panel_t =
  rp_num_haplotypes :: nat
  rp_num_sites :: nat

record threader_t =
  tr_reference_panel :: reference_panel_t

record ReferencePanel =
  py_reference_panel :: "reference_panel_t option"

record Threader =
  py_panel :: ReferencePanel
  py_threader :: "threader_t option"

text \<open>A numpy array of 32-bit unsigned integers: its number of dimensions, its shape and its data.\<close>

record path_array_t =
  pa_ndim :: int
  pa_dims :: "int list"
  pa_data :: "32 word list"

text \<open>
  What the method hands back to the interpreter: a raised exception or the returned array.
  \<open>Callee_error\<close> is an exception set by the interpreter or by numpy (argument
  parsing, array conversion, array creation); \<open>Undefined\<close> is a read past a buffer.
\<close>

datatype py_exception =
  SystemError | Callee_error | ValueError string | MemoryError | TsinfLibraryError int | Undefined

datatype py_result = Raise py_exception | Return "32 word list"

definition ReferencePanel_check_state :: "ReferencePanel \<Rightarrow> int" where
  "ReferencePanel_check_state self = (if py_reference_panel self = None then - 1 else 0)"

definition Threader_check_state :: "Threader \<Rightarrow> int" where
  "Threader_check_state self =
     (if py_threader self = None then - 1 else ReferencePanel_check_state (py_panel self))"

text \<open>
  The library function \<^verbatim>\<open>threader_run\<close> is absent: it is the parameter
  \<open>threader_run\<close>, which returns its error code, the path it wrote, the number of
  mutations and the contents of the mutations buffer. The other parameters are what the
  environment decides: \<open>args\<close> is the outcome of parsing the arguments (haplotype index,
  panel size, recombination rate, error probability, path object, algorithm), \<open>convert\<close>
  the conversion of the path object to an array, \<open>malloc_ok\<close> the allocation of the
  mutations buffer and \<open>empty_ok\<close> the creation of the result array.
\<close>

definition Threader_run ::
  "(threader_t \<Rightarrow> nat \<Rightarrow> nat \<Rightarrow> 'd \<Rightarrow> 'd \<Rightarrow> 32 word list
      \<Rightarrow> int \<times> 32 word list \<times> 32 word \<times> 32 word list)
   \<Rightarrow> Threader \<Rightarrow> (nat \<times> nat \<times> 'd \<times> 'd \<times> 'p \<times> int) option
   \<Rightarrow> ('p \<Rightarrow> path_array_t option) \<Rightarrow> bool \<Rightarrow> bool \<Rightarrow> py_result" where
  "Threader_run threader_run self args convert malloc_ok empty_ok =
     (if Threader_check_state self \<noteq> 0 then Raise SystemError
      else
        (case args of
           None \<Rightarrow> Raise Callee_error
         | Some (haplotype_index, panel_size, recombination_rate, error_probablilty, path,
                 algorithm) \<Rightarrow>
             (case py_threader self of
                None \<Rightarrow> Raise Undefined
              | Some threader \<Rightarrow>
                  if haplotype_index \<ge> rp_num_haplotypes (tr_reference_panel threader)
                  then Raise (ValueError ''haplotype_index out of bounds'')
                  else
                    (case convert path of
                       None \<Rightarrow> Raise Callee_error
                     | Some path_array \<Rightarrow>
                         if pa_ndim path_array \<noteq> 1 then Raise (ValueError ''Dim != 1'')
                         else if nat (hd (pa_dims path_array) mod 2 ^ 32)
                                   \<noteq> rp_num_sites (tr_reference_panel threader)
                         then Raise (ValueError ''input path wrong size'')
                         else if \<not> malloc_ok then Raise MemoryError
                         else
                           (let (err, path', num_mutations, mutations) =
                                  threader_run threader haplotype_index panel_size
                                    recombination_rate error_probablilty (pa_data path_array);
                                err = (0 :: int)
                            in if err \<noteq> 0 then Raise (TsinfLibraryError err)
                               else if \<not> empty_ok then Raise Callee_error
                               else if length mutations < unat num_mutations then Raise Undefined
                               else Return (take (unat num_mutations) mutations))))))"

section \<open>A worked example\<close>

text \<open>
  Five samples and five sites. Site 0, carried by samples 0, 1 and 2, is the focal site
  of the examples; the four sites to its right have frequency 4. \<open>example_builder\<close>
  is the builder after the five calls of add site.
\<close>

definition example_calls :: "(site_id_t \<times> nat \<times> allele_t list) list" where
  "example_calls =
     [(0, 3, [1, 1, 1, 0, 0]), (1, 4, [1, 1, 0, 1, 1]), (2, 4, [1, 1, 0, 1, 1]),
      (3, 4, [0, 1, 1, 1, 1]), (4, 4, [0, 1, 1, 1, 1])]"

definition example_builder :: ancestor_builder_t where
  "example_builder =
     \<lparr>num_samples = 5, num_sites = 5, flags = 0,
      sites = [\<lparr>site_frequency = 3, site_genotypes = Some 0\<rparr>,
               \<lparr>site_frequency = 4, site_genotypes = Some 1\<rparr>,
               \<lparr>site_frequency = 4, site_genotypes = Some 1\<rparr>,
               \<lparr>site_frequency = 4, site_genotypes = Some 2\<rparr>,
               \<lparr>site_frequency = 4, site_genotypes = Some 2\<rparr>],
      frequency_map = [[], [], [],
        [\<lparr>pm_genotypes = 0, pm_num_samples = 5, pm_sites = [0], pm_num_sites = 1\<rparr>],
        [\<lparr>pm_genotypes = 2, pm_num_samples = 5, pm_sites = [4, 3], pm_num_sites = 2\<rparr>,
         \<lparr>pm_genotypes = 1, pm_num_samples = 5, pm_sites = [2, 1], pm_num_sites = 2\<rparr>],
        []],
      descriptors = replicate 5 \<lparr>d_frequency = 0, d_num_focal_sites = 0, d_focal_sites = None\<rparr>,
      num_ancestors = 0,
      allocator = \<lparr>genotype_store = [[1, 1, 1, 0, 0], [1, 1, 0, 1, 1], [0, 1, 1, 1, 1]],
                   focal_store = [], outcomes = []\<rparr>\<rparr>"

section \<open>Invariants of the builder\<close>

text \<open>
  \<open>push_site\<close> is the update add site makes to a map element. \<open>builder_inv\<close> collects
  what every builder made by alloc and add site satisfies: the arrays have their
  allocated sizes, every map element points to a buffer of the arena and lists as many
  sites as it counts, the keys of a bucket are pairwise different, and every site of
  frequency at least 2 has its genotypes. \<open>site_pattern self l f c\<close> says that site \<open>l\<close>
  has frequency \<open>f\<close> and shares the buffer, of contents \<open>c\<close>, of an element of bucket
  \<open>f\<close>.
\<close>

abbreviation gstore :: "ancestor_builder_t \<Rightarrow> allele_t list list" where
  "gstore self \<equiv> genotype_store (allocator self)"

definition push_site :: "site_id_t \<Rightarrow> pattern_map_t \<Rightarrow> pattern_map_t" where
  "push_site l e = e\<lparr>pm_num_sites := pm_num_sites e + 1, pm_sites := l # pm_sites e\<rparr>"

definition entry_ok :: "ancestor_builder_t \<Rightarrow> pattern_map_t \<Rightarrow> bool" where
  "entry_ok self e \<longleftrightarrow>
     pm_genotypes e < length (gstore self) \<and>
     pm_num_sites e = length (pm_sites e) \<and> pm_sites e \<noteq> [] \<and>
     (\<forall>l\<in>set (pm_sites e). l < num_sites self \<and> site_genotypes (sites self ! l) \<noteq> None)"

definition builder_inv :: "ancestor_builder_t \<Rightarrow> bool" where
  "builder_inv self \<longleftrightarrow>
     length (sites self) = num_sites self \<and>
     length (frequency_map self) = num_samples self + 1 \<and>
     length (descriptors self) = num_sites self \<and>
     (\<forall>bucket\<in>set (frequency_map self).
        (\<forall>e\<in>set bucket. entry_ok self e) \<and>
        distinct (map (\<lambda>e. gstore self ! pm_genotypes e) bucket)) \<and>
     (\<forall>b\<in>set (gstore self). length b = num_samples self) \<and>
     (\<forall>s\<in>set (sites self).
        (\<forall>a. site_genotypes s = Some a \<longrightarrow> a < length (gstore self)) \<and>
        (2 \<le> site_frequency s \<longrightarrow> site_genotypes s \<noteq> None))"

definition site_pattern :: "ancestor_builder_t \<Rightarrow> site_id_t \<Rightarrow> nat \<Rightarrow> allele_t list \<Rightarrow> bool" where
  "site_pattern self l f c \<longleftrightarrow>
     l < num_sites self \<and> f \<le> num_samples self \<and> site_frequency (sites self ! l) = f \<and>
     (\<exists>e\<in>set (frequency_map self ! f).
        site_genotypes (sites self ! l) = Some (pm_genotypes e) \<and>
        gstore self ! pm_genotypes e = c)"

section \<open>Views of the finalised builder\<close>

text \<open>
  Auxiliary notions for the statements about finalise. \<open>emitted_descriptor j block k\<close> is
  the descriptor finalise leaves for the site at offset \<open>k\<close> of an array;
  \<open>descriptor_view\<close> reads a descriptor as its frequency, its number of focal sites and
  the focal sites it designates, and \<open>emitted_view\<close> reads all emitted descriptors so;
  \<open>entry_view\<close> and \<open>bucket_view\<close> are what a map element and a bucket contribute, and
  \<open>finalise_order\<close> is the order of the outer loop. \<open>all_focal_sites\<close> concatenates the
  focal sites of the emitted descriptors, \<open>listed_sites\<close> the site lists of all map
  elements, and \<open>older_calls\<close> keeps the sites added with a frequency of at least 2.
  \<open>pattern_sites ns calls j c\<close> lists, in call order, the sites added with frequency
  \<open>j\<close> and alleles \<open>c\<close>. The examples are the worked example after finalise, and two
  sites of one pattern added in descending order.
\<close>

definition emitted_descriptor :: "nat \<Rightarrow> nat \<Rightarrow> nat \<Rightarrow> ancestor_descriptor_t" where
  "emitted_descriptor j block k =
     \<lparr>d_frequency = j, d_num_focal_sites = 1, d_focal_sites = Some (block, k)\<rparr>"

definition descriptor_view ::
  "ancestor_builder_t \<Rightarrow> ancestor_descriptor_t \<Rightarrow> nat \<times> nat \<times> site_id_t list" where
  "descriptor_view self d = (d_frequency d, d_num_focal_sites d, descriptor_focal_sites self d)"

definition emitted_view :: "ancestor_builder_t \<Rightarrow> (nat \<times> nat \<times> site_id_t list) list" where
  "emitted_view self = map (descriptor_view self) (emitted self)"

definition entry_view :: "nat \<Rightarrow> pattern_map_t \<Rightarrow> (nat \<times> nat \<times> site_id_t list) list" where
  "entry_view j e = map (\<lambda>s. (j, 1, [s])) (rev (pm_sites e))"

definition emitted_inv :: "ancestor_builder_t \<Rightarrow> bool" where
  "emitted_inv self \<longleftrightarrow>
     num_ancestors self \<le> length (descriptors self) \<and>
     (\<forall>d\<in>set (emitted self). \<exists>block k.
        d_focal_sites d = Some (block, k) \<and> block < length (focal_store (allocator self)))"

definition entry_sized :: "pattern_map_t \<Rightarrow> bool" where
  "entry_sized e \<longleftrightarrow>
     pm_num_sites e = length (pm_sites e) \<and> pm_sites e \<noteq> [] \<and> length (pm_sites e) < 2 ^ 64"

definition bucket_view :: "ancestor_builder_t \<Rightarrow> nat \<Rightarrow> (nat \<times> nat \<times> site_id_t list) list" where
  "bucket_view self j = concat (map (entry_view j) (frequency_map self ! j))"

definition finalise_order :: "ancestor_builder_t \<Rightarrow> nat list" where
  "finalise_order self = rev [2 ..< Suc (num_samples self)]"

definition finalise_frame :: "ancestor_builder_t \<Rightarrow> ancestor_builder_t \<Rightarrow> bool" where
  "finalise_frame self self' \<longleftrightarrow>
     sites self' = sites self \<and> frequency_map self' = frequency_map self \<and>
     num_samples self' = num_samples self \<and> num_sites self' = num_sites self \<and>
     length (descriptors self') = length (descriptors self) \<and> gstore self' = gstore self"

definition listed_sites :: "ancestor_builder_t \<Rightarrow> site_id_t list" where
  "listed_sites self = concat (map (\<lambda>bucket. concat (map pm_sites bucket)) (frequency_map self))"

definition older_calls :: "(site_id_t \<times> nat \<times> allele_t list) list \<Rightarrow> site_id_t list" where
  "older_calls calls = map fst (filter (\<lambda>(l, f, g). 2 \<le> f) calls)"

definition all_focal_sites :: "ancestor_builder_t \<Rightarrow> site_id_t list" where
  "all_focal_sites self = concat (map (descriptor_focal_sites self) (emitted self))"

definition pattern_sites ::
  "nat \<Rightarrow> (site_id_t \<times> nat \<times> allele_t list) list \<Rightarrow> nat \<Rightarrow> allele_t list \<Rightarrow> site_id_t list" where
  "pattern_sites ns calls j c = map fst (filter (\<lambda>(l, f, g). f = j \<and> take ns g = c) calls)"

definition insertion_inv ::
  "(site_id_t \<times> nat \<times> allele_t list) list \<Rightarrow> ancestor_builder_t \<Rightarrow> bool" where
  "insertion_inv calls self \<longleftrightarrow>
     (\<forall>j<length (frequency_map self). \<forall>e\<in>set (frequency_map self ! j).
        2 \<le> j \<and>
        rev (pm_sites e) = pattern_sites (num_samples self) calls j (gstore self ! pm_genotypes e)) \<and>
     (\<forall>(l, f, g)\<in>set calls. 2 \<le> f \<longrightarrow>
        f < length (frequency_map self) \<and>
        (\<exists>e\<in>set (frequency_map self ! f). gstore self ! pm_genotypes e = take (num_samples self) g))"

definition example_finalised :: ancestor_builder_t where
  "example_finalised =
     example_builder
       \<lparr>descriptors :=
          [\<lparr>d_frequency = 4, d_num_focal_sites = 1, d_focal_sites = Some (0, 0)\<rparr>,
           \<lparr>d_frequency = 4, d_num_focal_sites = 1, d_focal_sites = Some (0, 1)\<rparr>,
           \<lparr>d_frequency = 4, d_num_focal_sites = 1, d_focal_sites = Some (1, 0)\<rparr>,
           \<lparr>d_frequency = 4, d_num_focal_sites = 1, d_focal_sites = Some (1, 1)\<rparr>,
           \<lparr>d_frequency = 3, d_num_focal_sites = 1, d_focal_sites = Some (2, 0)\<rparr>],
        num_ancestors := 5,
        allocator := \<lparr>genotype_store = [[1, 1, 1, 0, 0], [1, 1, 0, 1, 1], [0, 1, 1, 1, 1]],
                      focal_store = [[3, 4], [1, 2], [0]], outcomes = []\<rparr>\<rparr>"

definition unsorted_calls :: "(site_id_t \<times> nat \<times> allele_t list) list" where
  "unsorted_calls = [(1, 2, [1, 1, 0]), (0, 2, [1, 1, 0])]"

definition unsorted_builder :: ancestor_builder_t where
  "unsorted_builder =
     \<lparr>num_samples = 3, num_sites = 2, flags = 0,
      sites = [\<lparr>site_frequency = 2, site_genotypes = Some 0\<rparr>,
               \<lparr>site_frequency = 2, site_genotypes = Some 0\<rparr>],
      frequency_map = [[], [],
        [\<lparr>pm_genotypes = 0, pm_num_samples = 3, pm_sites = [0, 1], pm_num_sites = 2\<rparr>], []],
      descriptors = replicate 2 \<lparr>d_frequency = 0, d_num_focal_sites = 0, d_focal_sites = None\<rparr>,
      num_ancestors = 0,
      allocator = \<lparr>genotype_store = [[1, 1, 0]], focal_store = [], outcomes = []\<rparr>\<rparr>"

definition unsorted_finalised :: ancestor_builder_t where
  "unsorted_finalised =
     unsorted_builder
       \<lparr>descriptors :=
          [\<lparr>d_frequency = 2, d_num_focal_sites = 1, d_focal_sites = Some (0, 0)\<rparr>,
           \<lparr>d_frequency = 2, d_num_focal_sites = 1, d_focal_sites = Some (0, 1)\<rparr>],
        num_ancestors := 2,
        allocator := \<lparr>genotype_store = [[1, 1, 0]], focal_store = [[1, 0]], outcomes = []\<rparr>\<rparr>"

section \<open>Evaluation rules for concrete inputs\<close>

lemma replicate_numeral_eval: "replicate (numeral k) x = x # replicate (pred_numeral k) x"
  by (simp add: numeral_eq_Suc)

lemma list_update_numeral_eval: "(x # xs)[numeral k := y] = x # xs[pred_numeral k := y]"
  by (simp add: numeral_eq_Suc)

lemma length_div_eval: "Suc (Suc (Suc 0)) div 2 = 1"
  by simp

lemma memcmp_eval:
  "memcmp (x # xs) (y # ys) n =
     (if n = 0 then 0 else if x = y then memcmp xs ys (n - 1) else if unat x < unat y then - 1 else 1)"
  by (cases n) auto

lemmas builder_eval =
  ancestor_builder_alloc_def add_site_link_def add_site_orphan_def ancestor_builder_add_site_def
  key_cmp_def cmp_pattern_map_def block_allocator_get_def block_allocator_get_alleles_def
  block_allocator_get_sites_def memcmp_eval Let_def

lemma example_builder_built:
  "(case ancestor_builder_alloc [] 5 5 0 of Inl e \<Rightarrow> Inl e | Inr self \<Rightarrow> add_sites example_calls self)
     = Inr example_builder"
  by (simp add: example_calls_def example_builder_def builder_eval replicate_numeral_eval list_update_numeral_eval)

lemmas older_eval =
  ancestor_builder_compute_older_sites_def older_entry_state_def site_genotypes_buf_def
  compute_consensus_def count_ones_def size_sub_def mark_removed_def repack_def set_disagree_def
  Let_def

lemmas older_ev =
  ancestor_builder_compute_older_sites_def older_entry_state_def site_genotypes_buf_def
  compute_consensus_def count_ones_def size_sub_def mark_removed_def repack_def set_disagree_def
  Let_def example_builder_def replicate_numeral_eval list_update_numeral_eval length_div_eval


section \<open>Properties of compute older sites\<close>

lemma sum_sint_binary:
  "\<forall>u\<in>set S. g ! nat u = 0 \<or> g ! nat u = (1::8 word) \<Longrightarrow>
     (\<Sum>u\<leftarrow>S. sint (g ! nat u)) = int (length (filter (\<lambda>u. g ! nat u = 1) S))"
  by (induction S) auto

lemma count_ones_binary:
  assumes "\<forall>u\<in>set S. g ! nat u = 0 \<or> g ! nat u = (1::8 word)" and "length S < 2 ^ 64"
  shows "count_ones g S = length (filter (\<lambda>u. g ! nat u = 1) S)"
proof -
  let ?c = "length (filter (\<lambda>u. g ! nat u = 1) S)"
  have "?c \<le> length S" by simp
  with assms(2) have "?c < 2 ^ 64" by linarith
  then have "int ?c < 2 ^ 64" by simp
  then show ?thesis
    by (simp add: count_ones_def sum_sint_binary [OF assms(1)])
qed

lemma zeros_binary:
  assumes "\<forall>u\<in>set S. g ! nat u = 0 \<or> g ! nat u = (1::8 word)"
  shows "length S = length (filter (\<lambda>u. g ! nat u = 1) S) + length (filter (\<lambda>u. g ! nat u = 0) S)"
  using assms by (induction S) auto

lemma size_sub_le: "b \<le> a \<Longrightarrow> a < 2 ^ 64 \<Longrightarrow> size_sub a b = a - b"
  by (simp add: size_sub_def nat_diff_distrib' flip: of_nat_diff)

lemma consensus_binary:
  assumes "\<forall>u\<in>set S. g ! nat u = 0 \<or> g ! nat u = (1::8 word)" and "length S < 2 ^ 64"
  shows "compute_consensus g S =
    (if length (filter (\<lambda>u. g ! nat u = 0) S) \<le> length (filter (\<lambda>u. g ! nat u = 1) S) then 1 else 0)"
proof -
  have "size_sub (length S) (count_ones g S) = length (filter (\<lambda>u. g ! nat u = 0) S)"
    using zeros_binary [OF assms(1)] assms(2)
    by (simp add: count_ones_binary [OF assms] size_sub_le)
  then show ?thesis
    by (simp add: compute_consensus_def Let_def count_ones_binary [OF assms])
qed

lemma older_sites_loop_j:
  "older_sites_loop self m ls st = Inr out \<Longrightarrow> os_j st \<le> os_j out \<and> os_j out \<le> os_j st + length ls"
proof (induction ls arbitrary: st)
  case Nil
  then show ?case by simp
next
  case (Cons l ls)
  then show ?case
    by (fastforce simp: Let_def split: option.splits if_splits)
qed

lemma older_sites_loop_append:
  "older_sites_loop self m (xs @ ys) st =
     (case older_sites_loop self m xs st of
        Inl e \<Rightarrow> Inl e
      | Inr st' \<Rightarrow> if os_j st' = os_j st + length xs then older_sites_loop self m ys st' else Inr st')"
proof (induction xs arbitrary: st)
  case Nil
  then show ?case by simp
next
  case (Cons l xs)
  show ?case
  proof (cases "site_genotypes_buf self l")
    case None
    then show ?thesis by simp
  next
    case (Some g)
    let ?c = "compute_consensus g (os_sample_set st)"
    let ?S = "repack (mark_removed (os_disagree st) g ?c (os_sample_set st))"
    show ?thesis
    proof (cases "length ?S \<le> m")
      case True
      with Some show ?thesis by (simp add: Let_def)
    next
      case stop: False
      show ?thesis
      proof (cases "l < length (os_ancestor st)")
        case False
        with Some stop show ?thesis by (simp add: Let_def)
      next
        case True
        with Some stop show ?thesis
          by (simp add: Let_def Cons.IH split: sum.splits)
      qed
    qed
  qed
qed

lemma set_disagree_length [simp]: "length (set_disagree g c S d) = length d"
proof -
  have "length (fold (\<lambda>u d. d[nat u := (g ! nat u \<noteq> c)]) S d) = length d" for d
    by (induction S arbitrary: d) auto
  then show ?thesis by (simp add: set_disagree_def)
qed

lemma set_disagree_nth:
  assumes "u \<in> set S" "\<forall>v\<in>set S. 0 \<le> v" "nat u < length d"
  shows "set_disagree g c S d ! nat u = (g ! nat u \<noteq> c)"
proof -
  have "u \<in> set S \<Longrightarrow> \<forall>v\<in>set S. 0 \<le> v \<Longrightarrow> nat u < length d \<Longrightarrow>
      fold (\<lambda>u d. d[nat u := (g ! nat u \<noteq> c)]) S d ! nat u = (g ! nat u \<noteq> c)" for d
  proof (induction S arbitrary: d rule: rev_induct)
    case Nil
    then show ?case by simp
  next
    case (snoc x xs)
    have len: "length (fold (\<lambda>u d. d[nat u := (g ! nat u \<noteq> c)]) xs d) = length d" for d
      by (induction xs arbitrary: d) auto
    show ?case
    proof (cases "x = u")
      case True
      with snoc.prems len show ?thesis by simp
    next
      case False
      with snoc.prems have "u \<in> set xs" "nat x \<noteq> nat u" by auto
      with snoc show ?thesis by simp
    qed
  qed
  with assms show ?thesis by (simp add: set_disagree_def)
qed

lemma set_disagree_other:
  "\<forall>v\<in>set S. nat v \<noteq> i \<Longrightarrow> set_disagree g c S d ! i = d ! i"
proof -
  have "\<forall>v\<in>set S. nat v \<noteq> i \<Longrightarrow> fold (\<lambda>u d. d[nat u := (g ! nat u \<noteq> c)]) S d ! i = d ! i" for d
    by (induction S arbitrary: d) auto
  then show "\<forall>v\<in>set S. nat v \<noteq> i \<Longrightarrow> set_disagree g c S d ! i = d ! i"
    by (simp add: set_disagree_def)
qed

lemma repack_mark_set:
  assumes "\<forall>v\<in>set S. 0 \<le> v"
  shows "set (repack (mark_removed d g c S)) = {u \<in> set S. \<not> (d ! nat u \<and> g ! nat u \<noteq> c)}"
  using assms by (auto simp: repack_def mark_removed_def)

lemma repack_mark_filter:
  assumes "\<forall>v\<in>set S. 0 \<le> v"
  shows "repack (mark_removed d g c S) = filter (\<lambda>u. \<not> (d ! nat u \<and> g ! nat u \<noteq> c)) S"
  using assms by (induction S) (auto simp: repack_def mark_removed_def)

lemma older_sites_loop_single:
  assumes "site_genotypes_buf self l = Some g"
  shows "older_sites_loop self m [l] st =
     (let c = compute_consensus g (os_sample_set st);
          S' = repack (mark_removed (os_disagree st) g c (os_sample_set st))
      in if length S' \<le> m then Inr (st\<lparr>os_sample_set := S'\<rparr>)
         else if \<not> l < length (os_ancestor st) then Inl Fault
         else Inr (st\<lparr>os_j := os_j st + 1, os_sample_set := S',
                       os_disagree := set_disagree g c S' (os_disagree st),
                       os_ancestor := (os_ancestor st)[l := c], os_last_site := l\<rparr>))"
  using assms by (simp add: Let_def)

lemma older_sites_loop_arrive:
  assumes "older_sites_loop self m pre st0 = Inr st" "os_j st = os_j st0 + length pre"
  shows "older_sites_loop self m (pre @ rest) st0 = older_sites_loop self m rest st"
  using assms by (simp add: older_sites_loop_append)

text \<open>
  Claim C5. On arrival at an older site \<open>l\<close> of compute older sites (the sites \<open>pre\<close>
  before it were all written, leaving the state \<open>st\<close>), with the genotypes of the
  working sample set being 0 or 1, the consensus is 1 exactly when the number of ones over
  the working set is at least the number of zeros, and 0 otherwise; this is the allele
  written to \<open>ancestor[l]\<close> when the site is written.
\<close>

theorem consensus_ties_favour_one:
  assumes arrive: "older_sites_loop self (length S0 div 2) pre
                     (older_entry_state self focal_site ancestor S0) = Inr st"
                  "os_j st = length pre"
    and gen: "site_genotypes_buf self l = Some genotypes"
    and bin: "\<forall>u\<in>set (os_sample_set st). genotypes ! nat u = 0 \<or> genotypes ! nat u = 1"
    and len: "length (os_sample_set st) < 2 ^ 64"
  defines "ones \<equiv> length (filter (\<lambda>u. genotypes ! nat u = 1) (os_sample_set st))"
    and "zeros \<equiv> length (filter (\<lambda>u. genotypes ! nat u = 0) (os_sample_set st))"
  shows "compute_consensus genotypes (os_sample_set st) = (if ones \<ge> zeros then 1 else 0) \<and>
         (\<forall>out. ancestor_builder_compute_older_sites True self focal_site ancestor (pre @ [l]) S0 = Inr out
                \<and> os_j out = length pre + 1
            \<longrightarrow> os_ancestor out ! l = (if ones \<ge> zeros then 1 else 0))"
proof -
  have c: "compute_consensus genotypes (os_sample_set st) = (if ones \<ge> zeros then 1 else 0)"
    unfolding ones_def zeros_def by (rule consensus_binary [OF bin len])
  have j0: "os_j st = os_j (older_entry_state self focal_site ancestor S0) + length pre"
    using arrive(2) by (simp add: older_entry_state_def)
  have run: "ancestor_builder_compute_older_sites True self focal_site ancestor (pre @ [l]) S0
               = older_sites_loop self (length S0 div 2) [l] st"
    by (simp add: ancestor_builder_compute_older_sites_def older_sites_loop_arrive [OF arrive(1) j0])
  have "os_ancestor out ! l = compute_consensus genotypes (os_sample_set st)"
    if "older_sites_loop self (length S0 div 2) [l] st = Inr out" "os_j out = length pre + 1" for out
    using that arrive(2)
    by (auto simp: gen Let_def split: if_splits)
  with c run show ?thesis by simp
qed

theorem consensus_ties_favour_one_witness:
  "older_sites_loop example_builder (length [0, 1, 2 :: int] div 2) [1, 2]
     (older_entry_state example_builder 0 [1, 255, 255, 255, 255] [0, 1, 2])
     = Inr \<lparr>os_j = 2, os_sample_set = [0, 1], os_disagree = [False, False, True, False, False],
             os_ancestor = [1, 1, 1, 255, 255], os_last_site = 2\<rparr> \<and>
   site_genotypes_buf example_builder 3 = Some [0, 1, 1, 1, 1] \<and>
   length (filter (\<lambda>u. [0, 1, 1, 1, 1 :: allele_t] ! nat u = 1) [0, 1]) = 1 \<and>
   length (filter (\<lambda>u. [0, 1, 1, 1, 1 :: allele_t] ! nat u = 0) [0, 1]) = 1 \<and>
   compute_consensus [0, 1, 1, 1, 1] [0, 1] = 1 \<and>
   (\<exists>out. ancestor_builder_compute_older_sites True example_builder 0 [1, 255, 255, 255, 255]
             ([1, 2] @ [3]) [0, 1, 2] = Inr out \<and> os_j out = 3 \<and> os_ancestor out ! 3 = 1)"
  using consensus_ties_favour_one [of example_builder "[0, 1, 2]" "[1, 2]" 0
          "[1, 255, 255, 255, 255]"
          "\<lparr>os_j = 2, os_sample_set = [0, 1], os_disagree = [False, False, True, False, False],
             os_ancestor = [1, 1, 1, 255, 255], os_last_site = 2\<rparr>" 3 "[0, 1, 1, 1, 1]"]
  by (simp add: older_ev)

lemma older_sites_loop_range:
  assumes "older_sites_loop self m ls st = Inr out"
    and "\<forall>v\<in>set (os_sample_set st). 0 \<le> v \<and> nat v < length (os_disagree st)"
  shows "(\<forall>v\<in>set (os_sample_set out). 0 \<le> v \<and> nat v < length (os_disagree out)) \<and>
         length (os_disagree out) = length (os_disagree st) \<and>
         length (os_ancestor out) = length (os_ancestor st)"
  using assms
proof (induction ls arbitrary: st)
  case Nil
  then show ?case by simp
next
  case (Cons l ls)
  from Cons.prems(1) obtain g where g: "site_genotypes_buf self l = Some g"
    by (auto split: option.splits)
  let ?c = "compute_consensus g (os_sample_set st)"
  let ?S = "repack (mark_removed (os_disagree st) g ?c (os_sample_set st))"
  from Cons.prems(2) have nonneg: "\<forall>v\<in>set (os_sample_set st). 0 \<le> v" by simp
  have sub: "set ?S \<subseteq> set (os_sample_set st)" by (auto simp: repack_mark_set [OF nonneg])
  show ?case
  proof (cases "length ?S \<le> m")
    case True
    with Cons.prems(1) g have "out = st\<lparr>os_sample_set := ?S\<rparr>" by (simp add: Let_def)
    with sub Cons.prems(2) show ?thesis by auto
  next
    case False
    let ?st = "st\<lparr>os_j := os_j st + 1, os_sample_set := ?S,
                  os_disagree := set_disagree g ?c ?S (os_disagree st),
                  os_ancestor := (os_ancestor st)[l := ?c], os_last_site := l\<rparr>"
    from False Cons.prems(1) g have run: "older_sites_loop self m ls ?st = Inr out"
      by (simp add: Let_def split: if_splits)
    have "\<forall>v\<in>set (os_sample_set ?st). 0 \<le> v \<and> nat v < length (os_disagree ?st)"
      using sub Cons.prems(2) by auto
    from Cons.IH [OF run this] show ?thesis by auto
  qed
qed

lemma first_site_keeps_all:
  assumes "\<forall>v\<in>set S. 0 \<le> v \<and> nat v < n"
  shows "repack (mark_removed (replicate n False) g c S) = S"
proof -
  from assms have "\<forall>v\<in>set S. 0 \<le> v" by simp
  then have "repack (mark_removed (replicate n False) g c S) =
               filter (\<lambda>u. \<not> (replicate n False ! nat u \<and> g ! nat u \<noteq> c)) S"
    by (rule repack_mark_filter)
  also have "\<dots> = S" using assms by (intro filter_True) simp
  finally show ?thesis .
qed

lemma older_sites_loop_last_written:
  assumes run: "older_sites_loop self m (before @ [p]) st0 = Inr st"
    and j: "os_j st = os_j st0 + length before + 1"
  obtains stp gp where "older_sites_loop self m before st0 = Inr stp"
    "os_j stp = os_j st0 + length before"
    "site_genotypes_buf self p = Some gp"
    "os_sample_set st = repack (mark_removed (os_disagree stp) gp
        (compute_consensus gp (os_sample_set stp)) (os_sample_set stp))"
    "os_disagree st = set_disagree gp (compute_consensus gp (os_sample_set stp))
        (os_sample_set st) (os_disagree stp)"
proof -
  from run obtain stp where stp: "older_sites_loop self m before st0 = Inr stp"
    by (auto simp: older_sites_loop_append split: sum.splits)
  have jp: "os_j stp = os_j st0 + length before"
  proof (rule ccontr)
    assume "os_j stp \<noteq> os_j st0 + length before"
    with run stp have "st = stp" by (simp add: older_sites_loop_append)
    with older_sites_loop_j [OF stp] j show False by simp
  qed
  with run stp have single: "older_sites_loop self m [p] stp = Inr st"
    by (simp add: older_sites_loop_append)
  then obtain gp where gp: "site_genotypes_buf self p = Some gp"
    by (auto split: option.splits)
  from single j jp have
    "os_sample_set st = repack (mark_removed (os_disagree stp) gp
        (compute_consensus gp (os_sample_set stp)) (os_sample_set stp))"
    "os_disagree st = set_disagree gp (compute_consensus gp (os_sample_set stp))
        (os_sample_set st) (os_disagree stp)"
    by (auto simp: gp Let_def split: if_splits)
  with stp jp gp show thesis by (rule that)
qed

text \<open>
  Claim C6. Let compute older sites be entered with the sample set \<open>S0\<close> (sample ids
  below \<^verbatim>\<open>num_samples\<close>), let the sites \<open>pre\<close> all be written, leaving the state \<open>st\<close>
  on arrival at the site \<open>l\<close>, and let \<open>u\<close> be a sample of the working set on arrival.
  Then the call over \<open>pre\<close> followed by \<open>l\<close> returns, and \<open>u\<close> is removed at \<open>l\<close> if and
  only if its genotype at \<open>l\<close> differs from the consensus at \<open>l\<close> and its disagree flag is
  set. At the first processed site (\<open>pre\<close> empty) the flags are those of the entry state and
  nobody is removed: the working set stays \<open>S0\<close>. Otherwise the flag of \<open>u\<close> is set exactly
  when its genotype at the immediately preceding written site differed from the consensus
  there, so \<open>u\<close> is removed at \<open>l\<close> if and only if it disagrees with the consensus at both
  sites.
\<close>

theorem two_strike_removal:
  assumes S0: "\<forall>v\<in>set S0. 0 \<le> v \<and> nat v < num_samples self"
    and arrive: "ancestor_builder_compute_older_sites True self focal_site ancestor pre S0 = Inr st"
                "os_j st = length pre"
    and gl: "site_genotypes_buf self l = Some gl"
    and l: "l < length ancestor"
    and u: "u \<in> set (os_sample_set st)"
  shows "\<exists>st'. ancestor_builder_compute_older_sites True self focal_site ancestor (pre @ [l]) S0
                  = Inr st' \<and>
           (u \<notin> set (os_sample_set st')) =
             (gl ! nat u \<noteq> compute_consensus gl (os_sample_set st) \<and> os_disagree st ! nat u) \<and>
           (pre = [] \<longrightarrow> os_sample_set st = S0 \<and> os_sample_set st' = S0) \<and>
           (pre \<noteq> [] \<longrightarrow>
              (\<exists>stp gp.
                 ancestor_builder_compute_older_sites True self focal_site ancestor (butlast pre) S0
                   = Inr stp \<and>
                 site_genotypes_buf self (last pre) = Some gp \<and>
                 os_disagree st ! nat u = (gp ! nat u \<noteq> compute_consensus gp (os_sample_set stp)) \<and>
                 (u \<notin> set (os_sample_set st')) =
                   (gl ! nat u \<noteq> compute_consensus gl (os_sample_set st) \<and>
                    gp ! nat u \<noteq> compute_consensus gp (os_sample_set stp))))"
proof -
  let ?entry = "older_entry_state self focal_site ancestor S0"
  let ?m = "length S0 div 2"
  let ?cl = "compute_consensus gl (os_sample_set st)"
  let ?S' = "repack (mark_removed (os_disagree st) gl ?cl (os_sample_set st))"
  have run: "ancestor_builder_compute_older_sites True self focal_site ancestor xs S0
               = older_sites_loop self ?m xs ?entry" for xs
    by (simp add: ancestor_builder_compute_older_sites_def)
  have e: "os_j ?entry = 0" "os_sample_set ?entry = S0"
    "os_disagree ?entry = replicate (num_samples self) False" "os_ancestor ?entry = ancestor"
    by (simp_all add: older_entry_state_def)
  have range0: "\<forall>v\<in>set (os_sample_set ?entry). 0 \<le> v \<and> nat v < length (os_disagree ?entry)"
    using S0 by (simp add: e)
  from arrive(1) have loop: "older_sites_loop self ?m pre ?entry = Inr st" by (simp add: run)
  note r = older_sites_loop_range [OF loop range0]
  from r have nonneg: "\<forall>v\<in>set (os_sample_set st). 0 \<le> v" by simp
  from r l have lt: "l < length (os_ancestor st)" by (simp add: e)
  have j0: "os_j st = os_j ?entry + length pre" using arrive(2) by (simp add: e)
  have step: "older_sites_loop self ?m (pre @ [l]) ?entry = older_sites_loop self ?m [l] st"
    by (rule older_sites_loop_arrive [OF loop j0])
  have "\<exists>st'. older_sites_loop self ?m [l] st = Inr st' \<and> os_sample_set st' = ?S'"
    using lt gl by (simp add: Let_def)
  then obtain st' where st': "older_sites_loop self ?m [l] st = Inr st'" "os_sample_set st' = ?S'"
    by blast
  have removed: "(u \<notin> set (os_sample_set st')) = (gl ! nat u \<noteq> ?cl \<and> os_disagree st ! nat u)"
    using u by (auto simp: st'(2) repack_mark_set [OF nonneg])
  have first: "os_sample_set st = S0 \<and> os_sample_set st' = S0" if "pre = []"
  proof -
    from that loop have st: "st = ?entry" by simp
    have "?S' = S0" unfolding st e by (rule first_site_keeps_all [OF S0])
    with st st'(2) show ?thesis by (simp add: e)
  qed
  have later: "\<exists>stp gp.
      ancestor_builder_compute_older_sites True self focal_site ancestor (butlast pre) S0 = Inr stp \<and>
      site_genotypes_buf self (last pre) = Some gp \<and>
      os_disagree st ! nat u = (gp ! nat u \<noteq> compute_consensus gp (os_sample_set stp)) \<and>
      (u \<notin> set (os_sample_set st')) =
        (gl ! nat u \<noteq> ?cl \<and> gp ! nat u \<noteq> compute_consensus gp (os_sample_set stp))"
    if "pre \<noteq> []"
  proof -
    from that have pre: "pre = butlast pre @ [last pre]" by simp
    have loop': "older_sites_loop self ?m (butlast pre @ [last pre]) ?entry = Inr st"
      using loop pre by simp
    have j': "os_j st = os_j ?entry + length (butlast pre) + 1"
      using j0 that by (simp add: Suc_pred')
    from loop' j' obtain stp gp where
      p: "older_sites_loop self ?m (butlast pre) ?entry = Inr stp"
        "site_genotypes_buf self (last pre) = Some gp"
        "os_sample_set st = repack (mark_removed (os_disagree stp) gp
           (compute_consensus gp (os_sample_set stp)) (os_sample_set stp))"
        "os_disagree st = set_disagree gp (compute_consensus gp (os_sample_set stp))
           (os_sample_set st) (os_disagree stp)"
      by (rule older_sites_loop_last_written)
    note rp = older_sites_loop_range [OF p(1) range0]
    from r rp u have "nat u < length (os_disagree stp)" by auto
    with u nonneg have flag:
      "os_disagree st ! nat u = (gp ! nat u \<noteq> compute_consensus gp (os_sample_set stp))"
      unfolding p(4) by (intro set_disagree_nth)
    from p(1) have "ancestor_builder_compute_older_sites True self focal_site ancestor
        (butlast pre) S0 = Inr stp" by (simp add: run)
    with p(2) flag removed show ?thesis by auto
  qed
  from st'(1) step have "ancestor_builder_compute_older_sites True self focal_site ancestor
      (pre @ [l]) S0 = Inr st'" by (simp add: run)
  with removed first later show ?thesis by blast
qed

theorem two_strike_removal_witness:
  "ancestor_builder_compute_older_sites True example_builder 0 [1, 255, 255, 255, 255] [] [0, 1, 2]
     = Inr (older_entry_state example_builder 0 [1, 255, 255, 255, 255] [0, 1, 2]) \<and>
   site_genotypes_buf example_builder 1 = Some [1, 1, 0, 1, 1] \<and>
   [1, 1, 0, 1, 1 :: allele_t] ! nat 2 \<noteq> compute_consensus [1, 1, 0, 1, 1] [0, 1, 2] \<and>
   ancestor_builder_compute_older_sites True example_builder 0 [1, 255, 255, 255, 255] ([] @ [1])
       [0, 1, 2]
     = Inr \<lparr>os_j = 1, os_sample_set = [0, 1, 2], os_disagree = [False, False, True, False, False],
             os_ancestor = [1, 1, 255, 255, 255], os_last_site = 1\<rparr> \<and>
   site_genotypes_buf example_builder 2 = Some [1, 1, 0, 1, 1] \<and>
   ancestor_builder_compute_older_sites True example_builder 0 [1, 255, 255, 255, 255] ([1] @ [2])
       [0, 1, 2]
     = Inr \<lparr>os_j = 2, os_sample_set = [0, 1], os_disagree = [False, False, True, False, False],
             os_ancestor = [1, 1, 1, 255, 255], os_last_site = 2\<rparr> \<and>
   (2::int) \<notin> set [0, 1]"
proof -
  let ?a = "[1, 255, 255, 255, 255 :: allele_t]"
  let ?g = "[1, 1, 0, 1, 1 :: allele_t]"
  let ?S0 = "[0, 1, 2 :: int]"
  let ?st1 = "\<lparr>os_j = 1, os_sample_set = [0, 1, 2], os_disagree = [False, False, True, False, False],
               os_ancestor = [1, 1, 255, 255, 255], os_last_site = 1\<rparr>"
  have S0: "\<forall>v\<in>set ?S0. 0 \<le> v \<and> nat v < num_samples example_builder"
    by (simp add: example_builder_def)
  have entry: "ancestor_builder_compute_older_sites True example_builder 0 ?a [] ?S0
                 = Inr (older_entry_state example_builder 0 ?a ?S0)"
    by (simp add: ancestor_builder_compute_older_sites_def)
  have j0: "os_j (older_entry_state example_builder 0 ?a ?S0) = length ([] :: nat list)"
    by (simp add: older_entry_state_def)
  have g1: "site_genotypes_buf example_builder 1 = Some ?g" by (simp add: older_ev)
  have g2: "site_genotypes_buf example_builder 2 = Some ?g" by (simp add: older_ev)
  have u0: "2 \<in> set (os_sample_set (older_entry_state example_builder 0 ?a ?S0))"
    by (simp add: older_entry_state_def)
  have arrive: "ancestor_builder_compute_older_sites True example_builder 0 ?a [1] ?S0 = Inr ?st1"
    by (simp add: older_ev)
  have j1: "os_j ?st1 = length [1 :: nat]" by simp
  have u1: "2 \<in> set (os_sample_set ?st1)" by simp
  have l1: "1 < length ?a" "2 < length ?a" by simp_all
  from two_strike_removal [OF S0 entry j0 g1 l1(1) u0] two_strike_removal [OF S0 arrive j1 g2 l1(2) u1]
    entry g1 g2
  show ?thesis by (simp add: older_ev)
qed

text \<open>
  Claim C7. On arrival at an older site \<open>l\<close> in state \<open>st\<close>, let \<open>S'\<close> be the
  repacked sample set. If its size is at most half (rounded down) of the size of the
  sample set \<open>S0\<close> the function was entered with, the function returns \<open>st\<close> with only
  the sample set repacked: nothing is written to the ancestor and the last site is
  unchanged. The loop stops at \<open>l\<close> exactly in that case; otherwise the consensus is
  written at \<open>l\<close> and \<open>l\<close> becomes the last site.
\<close>

theorem stop_threshold_uses_entry_size:
  assumes arrive: "older_sites_loop self (length S0 div 2) pre
                     (older_entry_state self focal_site ancestor S0) = Inr st"
                  "os_j st = length pre"
    and gen: "site_genotypes_buf self l = Some genotypes"
  defines "c \<equiv> compute_consensus genotypes (os_sample_set st)"
  defines "S' \<equiv> repack (mark_removed (os_disagree st) genotypes c (os_sample_set st))"
  shows "(length S' \<le> length S0 div 2 \<longrightarrow>
            ancestor_builder_compute_older_sites True self focal_site ancestor (pre @ l # post) S0
              = Inr (st\<lparr>os_sample_set := S'\<rparr>)) \<and>
         (\<forall>out. ancestor_builder_compute_older_sites True self focal_site ancestor (pre @ l # post) S0
                  = Inr out
            \<longrightarrow> (os_j out = length pre) = (length S' \<le> length S0 div 2)) \<and>
         (length S0 div 2 < length S' \<and> l < length (os_ancestor st) \<longrightarrow>
            ancestor_builder_compute_older_sites True self focal_site ancestor (pre @ [l]) S0
              = Inr (st\<lparr>os_j := length pre + 1, os_sample_set := S',
                         os_disagree := set_disagree genotypes c S' (os_disagree st),
                         os_ancestor := (os_ancestor st)[l := c], os_last_site := l\<rparr>))"
proof -
  let ?m = "length S0 div 2"
  have j0: "os_j st = os_j (older_entry_state self focal_site ancestor S0) + length pre"
    using arrive(2) by (simp add: older_entry_state_def)
  have run: "ancestor_builder_compute_older_sites True self focal_site ancestor (pre @ rest) S0
               = older_sites_loop self ?m rest st" for rest
    by (simp add: ancestor_builder_compute_older_sites_def older_sites_loop_arrive [OF arrive(1) j0])
  have stop: "older_sites_loop self ?m (l # post) st = Inr (st\<lparr>os_sample_set := S'\<rparr>)"
    if "length S' \<le> ?m"
    using that gen by (simp add: Let_def S'_def c_def)
  have go: "os_j out \<noteq> length pre"
    if "\<not> length S' \<le> ?m" "older_sites_loop self ?m (l # post) st = Inr out" for out
  proof -
    from that gen obtain st' where "older_sites_loop self ?m post st' = Inr out" "os_j st' = os_j st + 1"
      by (auto simp: Let_def S'_def c_def split: if_splits)
    with older_sites_loop_j [of self ?m post st' out] arrive(2) show ?thesis by simp
  qed
  have single: "older_sites_loop self ?m [l] st
      = Inr (st\<lparr>os_j := length pre + 1, os_sample_set := S',
                         os_disagree := set_disagree genotypes c S' (os_disagree st),
                         os_ancestor := (os_ancestor st)[l := c], os_last_site := l\<rparr>)"
    if "?m < length S'" "l < length (os_ancestor st)"
    using that arrive(2) by (simp add: gen Let_def S'_def c_def)
  show ?thesis
    using stop go single arrive(2) by (auto simp: run)
qed

theorem stop_threshold_uses_entry_size_witness:
  "older_sites_loop example_builder (length [0, 1, 2 :: int] div 2) [1, 2, 3]
     (older_entry_state example_builder 0 [1, 255, 255, 255, 255] [0, 1, 2])
     = Inr \<lparr>os_j = 3, os_sample_set = [0, 1], os_disagree = [True, False, True, False, False],
             os_ancestor = [1, 1, 1, 1, 255], os_last_site = 3\<rparr> \<and>
   site_genotypes_buf example_builder 4 = Some [0, 1, 1, 1, 1] \<and>
   repack (mark_removed [True, False, True, False, False] [0, 1, 1, 1, 1]
             (compute_consensus [0, 1, 1, 1, 1] [0, 1]) [0, 1]) = [1] \<and>
   ancestor_builder_compute_older_sites True example_builder 0 [1, 255, 255, 255, 255]
       ([1, 2, 3] @ 4 # []) [0, 1, 2]
     = Inr \<lparr>os_j = 3, os_sample_set = [1], os_disagree = [True, False, True, False, False],
             os_ancestor = [1, 1, 1, 1, 255], os_last_site = 3\<rparr>"
  using stop_threshold_uses_entry_size [of example_builder "[0, 1, 2]" "[1, 2, 3]" 0
          "[1, 255, 255, 255, 255]"
          "\<lparr>os_j = 3, os_sample_set = [0, 1], os_disagree = [True, False, True, False, False],
             os_ancestor = [1, 1, 1, 1, 255], os_last_site = 3\<rparr>" 4 "[0, 1, 1, 1, 1]" "[]"]
  by (simp add: older_ev)

section \<open>The error code of the HMM call\<close>

text \<open>
  Claim C4. Once the checks of \<^verbatim>\<open>Threader_run\<close> have passed (the objects are
  initialised, the arguments parse, the haplotype index is below the number of haplotypes,
  the path is a one-dimensional array of length \<^verbatim>\<open>num_sites\<close>) and the mutations
  buffer is allocated, the error code returned by \<^verbatim>\<open>threader_run\<close> has no effect:
  the method never raises the library error, its result is the one it has for the error
  code 0, and when the result array can be created the mutations are returned.
\<close>

theorem threader_run_error_discarded:
  assumes state: "py_threader self = Some threader" "py_reference_panel (py_panel self) \<noteq> None"
    and args: "args = Some (haplotype_index, panel_size, rho, eps, path, algorithm)"
    and index: "haplotype_index < rp_num_haplotypes (tr_reference_panel threader)"
    and conv: "convert path = Some path_array"
    and dim: "pa_ndim path_array = 1"
    and size: "nat (hd (pa_dims path_array) mod 2 ^ 32) = rp_num_sites (tr_reference_panel threader)"
    and hmm: "threader_run threader haplotype_index panel_size rho eps (pa_data path_array)
                = (err, path', num_mutations, mutations)"
  shows "Threader_run threader_run self args convert True empty_ok \<noteq> Raise (TsinfLibraryError e) \<and>
         Threader_run threader_run self args convert True empty_ok
           = Threader_run (\<lambda>t h k r p d. (0, path', num_mutations, mutations))
               self args convert True empty_ok \<and>
         (length mutations \<ge> unat num_mutations \<longrightarrow>
            Threader_run threader_run self args convert True True
              = Return (take (unat num_mutations) mutations))"
  using assms
  by (simp add: Threader_run_def Threader_check_state_def ReferencePanel_check_state_def Let_def)

theorem threader_run_error_discarded_witness:
  "Threader_run (\<lambda>t h k r p d. (- 2, d, 1, [3, 0]))
     \<lparr>py_panel = \<lparr>py_reference_panel = Some \<lparr>rp_num_haplotypes = 4, rp_num_sites = 2\<rparr>\<rparr>,
      py_threader = Some \<lparr>tr_reference_panel = \<lparr>rp_num_haplotypes = 4, rp_num_sites = 2\<rparr>\<rparr>\<rparr>
     (Some (1, 4, (), (), (), 0))
     (\<lambda>p. Some \<lparr>pa_ndim = 1, pa_dims = [2], pa_data = [0, 0]\<rparr>) True True
   = Return [3]"
  using threader_run_error_discarded
    [of "\<lparr>py_panel = \<lparr>py_reference_panel = Some \<lparr>rp_num_haplotypes = 4, rp_num_sites = 2\<rparr>\<rparr>,
          py_threader = Some \<lparr>tr_reference_panel = \<lparr>rp_num_haplotypes = 4, rp_num_sites = 2\<rparr>\<rparr>\<rparr>"
        "\<lparr>tr_reference_panel = \<lparr>rp_num_haplotypes = 4, rp_num_sites = 2\<rparr>\<rparr>"
        "Some (1, 4, (), (), (), 0)" 1 4 "()" "()" "()" 0
        "\<lambda>p. Some \<lparr>pa_ndim = 1, pa_dims = [2], pa_data = [0, 0]\<rparr>"
        "\<lparr>pa_ndim = 1, pa_dims = [2], pa_data = [0, 0]\<rparr>"
        "\<lambda>t h k r p d. (- 2, d, 1, [3, 0])" "- 2" "[0, 0]" 1 "[3, 0]" True 0,
     THEN conjunct2, THEN conjunct2]
  by simp

section \<open>Properties of add site\<close>

lemma memcmp_take: "memcmp (take n xs) ys n = memcmp xs ys n"
proof (induction xs ys n rule: memcmp.induct)
  case (1 x xs y ys n)
  then show ?case by simp
qed (auto simp: take_Cons')

lemma memcmp_eq_iff:
  "n \<le> length xs \<Longrightarrow> n \<le> length ys \<Longrightarrow> (memcmp xs ys n = 0) = (take n xs = take n ys)"
proof (induction xs ys n rule: memcmp.induct)
  case (1 x xs y ys n)
  then show ?case by auto
qed auto

lemma avl_search_None: "(avl_search cmp t = None) = (\<forall>e\<in>set t. cmp e \<noteq> 0)"
  by (induction t) auto

lemma avl_search_Some:
  "avl_search cmp t = Some i \<Longrightarrow> i < length t \<and> cmp (t ! i) = 0 \<and> (\<forall>k<i. cmp (t ! k) \<noteq> 0)"
proof (induction t arbitrary: i)
  case Nil
  then show ?case by simp
next
  case (Cons e t)
  show ?case
  proof (cases "cmp e = 0")
    case True
    with Cons.prems show ?thesis by simp
  next
    case False
    with Cons.prems obtain i' where i': "avl_search cmp t = Some i'" "i = Suc i'" by auto
    from Cons.IH [OF i'(1)] False i'(2) show ?thesis
      by (auto simp: less_Suc_eq_0_disj)
  qed
qed

lemma avl_insert_node_miss:
  assumes "\<forall>e\<in>set t. cmp e \<noteq> 0"
  shows "\<exists>i. i \<le> length t \<and> avl_insert_node cmp t x = (Some i, take i t @ x # drop i t)"
  using assms
proof (induction t)
  case Nil
  then show ?case by simp
next
  case (Cons e t)
  then obtain i where i: "i \<le> length t" "avl_insert_node cmp t x = (Some i, take i t @ x # drop i t)"
    by auto
  show ?case
  proof (cases "cmp e < 0")
    case True
    with Cons.prems show ?thesis by (intro exI [of _ 0]) simp
  next
    case False
    with Cons.prems i show ?thesis by (intro exI [of _ "Suc i"]) simp
  qed
qed

lemma add_site_link_fields:
  assumes "add_site_link self f i l = Inr self'"
  shows "num_samples self' = num_samples self" "num_sites self' = num_sites self"
    "sites self' = sites self" "descriptors self' = descriptors self"
    "num_ancestors self' = num_ancestors self" "gstore self' = gstore self"
    "focal_store (allocator self') = focal_store (allocator self)"
    "frequency_map self' = (frequency_map self)
        [f := (frequency_map self ! f)[i := push_site l (frequency_map self ! f ! i)]]"
  using assms
  by (auto simp: add_site_link_def block_allocator_get_def Let_def push_site_def
           split: prod.splits if_splits)

lemma site_update_all [simp]:
  "(s :: site_t)\<lparr>site_frequency := f, site_genotypes := G\<rparr>
     = \<lparr>site_frequency = f, site_genotypes = G\<rparr>"
  by (cases s) simp

lemma key_cmp_fun:
  "key_cmp self key = (\<lambda>e. cmp_pattern_map key (num_samples self) (gstore self ! pm_genotypes e))"
  by (rule ext) (simp add: key_cmp_def)

lemma add_site_cases:
  assumes inv: "builder_inv self"
    and run: "ancestor_builder_add_site self l f g = Inr self'"
  obtains
    (low) "f \<le> 1" "l < num_sites self" "f \<le> num_samples self"
      "sites self' = (sites self)[l := (sites self ! l)\<lparr>site_frequency := f\<rparr>]"
      "frequency_map self' = frequency_map self" "gstore self' = gstore self"
  | (hit) i where "1 < f" "l < num_sites self" "f \<le> num_samples self"
      "num_samples self \<le> length g" "i < length (frequency_map self ! f)"
      "gstore self ! pm_genotypes (frequency_map self ! f ! i) = take (num_samples self) g"
      "sites self' = (sites self)
         [l := \<lparr>site_frequency = f,
                site_genotypes = Some (pm_genotypes (frequency_map self ! f ! i))\<rparr>]"
      "frequency_map self' = (frequency_map self)
         [f := (frequency_map self ! f)[i := push_site l (frequency_map self ! f ! i)]]"
      "gstore self' = gstore self"
  | (miss) i where "1 < f" "l < num_sites self" "f \<le> num_samples self"
      "num_samples self \<le> length g" "i \<le> length (frequency_map self ! f)"
      "\<forall>e\<in>set (frequency_map self ! f). gstore self ! pm_genotypes e \<noteq> take (num_samples self) g"
      "sites self' = (sites self)
         [l := \<lparr>site_frequency = f, site_genotypes = Some (length (gstore self))\<rparr>]"
      "frequency_map self' = (frequency_map self)
         [f := take i (frequency_map self ! f) @
               \<lparr>pm_genotypes = length (gstore self), pm_num_samples = num_samples self,
                pm_sites = [l], pm_num_sites = 1\<rparr> # drop i (frequency_map self ! f)]"
      "gstore self' = gstore self @ [take (num_samples self) g]"
proof -
  let ?ns = "num_samples self"
  let ?bucket = "frequency_map self ! f"
  from run have rng: "f < length (frequency_map self)" "l < length (sites self)"
    by (auto simp: ancestor_builder_add_site_def split: if_splits)
  with inv have rng': "l < num_sites self" "f \<le> num_samples self"
    by (auto simp: builder_inv_def)
  have bucket_in: "?bucket \<in> set (frequency_map self)" using rng by simp
  have addr: "pm_genotypes e < length (gstore self)" if "e \<in> set ?bucket" for e
    using inv bucket_in that by (auto simp: builder_inv_def entry_ok_def)
  have len: "length (gstore self ! pm_genotypes e) = ?ns" if "e \<in> set ?bucket" for e
    using inv addr [OF that] by (auto simp: builder_inv_def)
  show thesis
  proof (cases "f \<le> 1")
    case True
    with run rng show ?thesis
      by (intro low rng') (auto simp: ancestor_builder_add_site_def Let_def)
  next
    case False
    then have f: "1 < f" by simp
    from run f rng have g: "?ns \<le> length g"
      by (auto simp: ancestor_builder_add_site_def Let_def split: if_splits)
    let ?self1 = "self\<lparr>sites := (sites self)[l := (sites self ! l)\<lparr>site_frequency := f\<rparr>]\<rparr>"
    have cmp0: "(key_cmp ?self1 g e = 0) = (gstore self ! pm_genotypes e = take ?ns g)"
      if "e \<in> set ?bucket" for e
      using len [OF that] g
      by (auto simp: key_cmp_def cmp_pattern_map_def memcmp_eq_iff)
    show ?thesis
    proof (cases "avl_search (key_cmp ?self1 g) ?bucket")
      case (Some i)
      from avl_search_Some [OF Some] have i: "i < length ?bucket" "key_cmp ?self1 g (?bucket ! i) = 0"
        by auto
      then have eq: "gstore self ! pm_genotypes (?bucket ! i) = take ?ns g"
        using cmp0 [of "?bucket ! i"] by simp
      from run f rng g Some have link:
        "add_site_link (?self1\<lparr>sites := (sites ?self1)
              [l := (sites ?self1 ! l)\<lparr>site_genotypes := Some (pm_genotypes (?bucket ! i))\<rparr>]\<rparr>)
           f i l = Inr self'"
        by (simp add: ancestor_builder_add_site_def Let_def)
      show ?thesis
        using add_site_link_fields [OF link] rng
        by (intro hit [of i] f rng' g i(1) eq) simp_all
    next
      case None
      then have ne: "\<forall>e\<in>set ?bucket. gstore self ! pm_genotypes e \<noteq> take ?ns g"
        using cmp0 by (simp add: avl_search_None)
      let ?new = "\<lparr>pm_genotypes = length (gstore self), pm_num_samples = ?ns,
                    pm_sites = [], pm_num_sites = 0\<rparr>"
      let ?store = "gstore self @ [take ?ns g]"
      let ?cmp' = "\<lambda>e. cmp_pattern_map (take ?ns g) ?ns (?store ! pm_genotypes e)"
      have "\<forall>e\<in>set ?bucket. ?cmp' e \<noteq> 0"
      proof
        fix e assume e: "e \<in> set ?bucket"
        with ne have "gstore self ! pm_genotypes e \<noteq> take ?ns g" by simp
        with addr [OF e] len [OF e] g show "?cmp' e \<noteq> 0"
          by (auto simp: cmp_pattern_map_def memcmp_eq_iff nth_append)
      qed
      from avl_insert_node_miss [OF this, of ?new] obtain i where
        i: "i \<le> length ?bucket"
           "avl_insert_node ?cmp' ?bucket ?new = (Some i, take i ?bucket @ ?new # drop i ?bucket)"
        by blast
      from run f rng g None i(2) obtain self2 where link:
        "add_site_link self2 f i l = Inr self'"
        "num_samples self2 = ?ns" "num_sites self2 = num_sites self"
        "gstore self2 = ?store"
        "sites self2 = (sites self)[l := \<lparr>site_frequency = f, site_genotypes = Some (length (gstore self))\<rparr>]"
        "frequency_map self2 = (frequency_map self)[f := take i ?bucket @ ?new # drop i ?bucket]"
        by (auto simp: ancestor_builder_add_site_def Let_def block_allocator_get_def
              block_allocator_get_alleles_def key_cmp_fun
              split: prod.splits option.splits if_splits)
      have upd: "(take i ?bucket @ ?new # drop i ?bucket)
                   [i := push_site l ((take i ?bucket @ ?new # drop i ?bucket) ! i)]
                 = take i ?bucket @ \<lparr>pm_genotypes = length (gstore self), pm_num_samples = ?ns,
                     pm_sites = [l], pm_num_sites = 1\<rparr> # drop i ?bucket"
        using i(1) by (simp add: nth_append list_update_append push_site_def)
      show ?thesis
        using add_site_link_fields [OF link(1)] link(2-) rng upd
        by (intro miss [of i] f rng' g i(1) ne) simp_all
    qed
  qed
qed

lemma add_site_frame:
  assumes "ancestor_builder_add_site self l f g = Inr self'"
  shows "num_samples self' = num_samples self" "num_sites self' = num_sites self"
    "descriptors self' = descriptors self" "num_ancestors self' = num_ancestors self"
    "focal_store (allocator self') = focal_store (allocator self)"
    "length (sites self') = length (sites self)"
    "length (frequency_map self') = length (frequency_map self)"
  using assms
  by (auto simp: ancestor_builder_add_site_def Let_def block_allocator_get_def
        block_allocator_get_alleles_def add_site_link_def add_site_orphan_def
      split: prod.splits option.splits if_splits)

lemma in_set_updateD: "x \<in> set (xs[i := y]) \<Longrightarrow> x = y \<or> x \<in> set xs"
  using set_update_subset_insert [of xs i y] by auto

lemma entry_ok_mono:
  assumes "entry_ok self e" "length (gstore self) \<le> length (gstore self')"
    "num_sites self' = num_sites self"
    "\<forall>k<num_sites self. site_genotypes (sites self ! k) \<noteq> None
        \<longrightarrow> site_genotypes (sites self' ! k) \<noteq> None"
  shows "entry_ok self' e"
  using assms unfolding entry_ok_def by auto

lemma entry_ok_push:
  assumes "entry_ok self e" "gstore self' = gstore self"
    "num_sites self' = num_sites self" "l < num_sites self"
    "site_genotypes (sites self' ! l) \<noteq> None"
    "\<forall>k<num_sites self. site_genotypes (sites self ! k) \<noteq> None
        \<longrightarrow> site_genotypes (sites self' ! k) \<noteq> None"
  shows "entry_ok self' (push_site l e)"
  using assms unfolding entry_ok_def push_site_def by auto

lemma pm_genotypes_push [simp]: "pm_genotypes (push_site l e) = pm_genotypes e"
  by (simp add: push_site_def)

lemma pm_sites_push [simp]: "pm_sites (push_site l e) = l # pm_sites e"
  by (simp add: push_site_def)

lemma pm_num_sites_push [simp]: "pm_num_sites (push_site l e) = pm_num_sites e + 1"
  by (simp add: push_site_def)

lemma map_update_same:
  assumes "i < length xs" "h y = h (xs ! i)"
  shows "map h (xs[i := y]) = map h xs"
proof -
  have "(map h xs)[i := map h xs ! i] = map h xs" by (rule list_update_id)
  with assms show ?thesis by (simp add: map_update)
qed

lemma add_site_inv:
  assumes inv: "builder_inv self"
    and run: "ancestor_builder_add_site self l f g = Inr self'"
  shows "builder_inv self'"
proof -
  note fr = add_site_frame [OF run]
  from inv have len: "length (sites self) = num_sites self"
      "length (frequency_map self) = num_samples self + 1"
      "length (descriptors self) = num_sites self"
    and buckets: "\<And>bucket e. bucket \<in> set (frequency_map self) \<Longrightarrow> e \<in> set bucket \<Longrightarrow> entry_ok self e"
    and dist: "\<And>bucket. bucket \<in> set (frequency_map self) \<Longrightarrow>
                 distinct (map (\<lambda>e. gstore self ! pm_genotypes e) bucket)"
    and bufs: "\<And>b. b \<in> set (gstore self) \<Longrightarrow> length b = num_samples self"
    and site_ok: "\<And>s a. s \<in> set (sites self) \<Longrightarrow> site_genotypes s = Some a \<Longrightarrow> a < length (gstore self)"
    and site_some: "\<And>s. s \<in> set (sites self) \<Longrightarrow> 2 \<le> site_frequency s \<Longrightarrow> site_genotypes s \<noteq> None"
    by (auto simp: builder_inv_def)
  have lens: "length (sites self') = num_sites self'"
      "length (frequency_map self') = num_samples self' + 1"
      "length (descriptors self') = num_sites self'"
    using fr len by simp_all
  from inv run show ?thesis
  proof (cases rule: add_site_cases)
    case low
    have keep: "\<forall>k<num_sites self. site_genotypes (sites self ! k) \<noteq> None
        \<longrightarrow> site_genotypes (sites self' ! k) \<noteq> None"
      using low len by (auto simp: nth_list_update)
    have A: "entry_ok self' e" if "bucket \<in> set (frequency_map self')" "e \<in> set bucket" for bucket e
      using entry_ok_mono [OF buckets [of bucket e]] that low keep fr by simp
    have B: "distinct (map (\<lambda>e. gstore self' ! pm_genotypes e) bucket)"
      if "bucket \<in> set (frequency_map self')" for bucket
      using dist [of bucket] that low by simp
    have C: "a < length (gstore self')" if "s \<in> set (sites self')" "site_genotypes s = Some a" for s a
    proof -
      from that(1) low(4) have "s = (sites self ! l)\<lparr>site_frequency := f\<rparr> \<or> s \<in> set (sites self)"
        by (auto dest: in_set_updateD)
      moreover have lm: "sites self ! l \<in> set (sites self)" using low len by simp
      ultimately show ?thesis
        using that(2) site_ok [of s a] site_ok [OF lm, of a] low(6) by auto
    qed
    have D: "site_genotypes s \<noteq> None" if "s \<in> set (sites self')" "2 \<le> site_frequency s" for s
    proof -
      from that(1) low(4) have "s = (sites self ! l)\<lparr>site_frequency := f\<rparr> \<or> s \<in> set (sites self)"
        by (auto dest: in_set_updateD)
      with that(2) site_some [of s] low show ?thesis by auto
    qed
    show ?thesis
      unfolding builder_inv_def using lens A B C D bufs low(6) fr(1) by auto
  next
    case (hit i)
    let ?bucket = "frequency_map self ! f"
    let ?e = "?bucket ! i"
    have fin: "?bucket \<in> set (frequency_map self)" using hit len by simp
    have ein: "?e \<in> set ?bucket" using hit by simp
    have eok: "entry_ok self ?e" using buckets [OF fin ein] .
    have keep: "\<forall>k<num_sites self. site_genotypes (sites self ! k) \<noteq> None
        \<longrightarrow> site_genotypes (sites self' ! k) \<noteq> None"
      using hit len by (auto simp: nth_list_update)
    have lsome: "site_genotypes (sites self' ! l) \<noteq> None" using hit len by simp
    have A: "entry_ok self' e" if "bucket \<in> set (frequency_map self')" "e \<in> set bucket" for bucket e
    proof -
      from that(1) hit(8) have "bucket = ?bucket[i := push_site l ?e] \<or> bucket \<in> set (frequency_map self)"
        by (auto dest: in_set_updateD)
      then show ?thesis
      proof
        assume "bucket \<in> set (frequency_map self)"
        from entry_ok_mono [OF buckets [OF this that(2)]] hit keep fr show ?thesis by simp
      next
        assume "bucket = ?bucket[i := push_site l ?e]"
        with that(2) have "e = push_site l ?e \<or> e \<in> set ?bucket" by (auto dest: in_set_updateD)
        then show ?thesis
        proof
          assume "e = push_site l ?e"
          with entry_ok_push [OF eok hit(9) fr(2) hit(2) lsome keep] show ?thesis by simp
        next
          assume "e \<in> set ?bucket"
          from entry_ok_mono [OF buckets [OF fin this]] hit keep fr show ?thesis by simp
        qed
      qed
    qed
    have B: "distinct (map (\<lambda>e. gstore self' ! pm_genotypes e) bucket)"
      if "bucket \<in> set (frequency_map self')" for bucket
    proof -
      from that hit(8) have "bucket = ?bucket[i := push_site l ?e] \<or> bucket \<in> set (frequency_map self)"
        by (auto dest: in_set_updateD)
      then show ?thesis
      proof
        assume "bucket \<in> set (frequency_map self)"
        with dist hit(9) show ?thesis by simp
      next
        assume b: "bucket = ?bucket[i := push_site l ?e]"
        have "map (\<lambda>e. gstore self ! pm_genotypes e) (?bucket[i := push_site l ?e])
                = map (\<lambda>e. gstore self ! pm_genotypes e) ?bucket"
          using hit(5) by (intro map_update_same) simp_all
        with dist [OF fin] b hit(9) show ?thesis by simp
      qed
    qed
    have C: "a < length (gstore self')" if "s \<in> set (sites self')" "site_genotypes s = Some a" for s a
    proof -
      from that(1) hit(7) have "s = \<lparr>site_frequency = f, site_genotypes = Some (pm_genotypes ?e)\<rparr>
           \<or> s \<in> set (sites self)"
        by (auto dest: in_set_updateD)
      with that(2) site_ok [of _ a] hit(9) eok show ?thesis by (auto simp: entry_ok_def)
    qed
    have D: "site_genotypes s \<noteq> None" if "s \<in> set (sites self')" "2 \<le> site_frequency s" for s
    proof -
      from that(1) hit(7) have "s = \<lparr>site_frequency = f, site_genotypes = Some (pm_genotypes ?e)\<rparr>
           \<or> s \<in> set (sites self)"
        by (auto dest: in_set_updateD)
      with that(2) site_some [of s] show ?thesis by auto
    qed
    show ?thesis
      unfolding builder_inv_def using lens A B C D bufs hit(9) fr(1) by auto
  next
    case (miss i)
    let ?bucket = "frequency_map self ! f"
    let ?new = "\<lparr>pm_genotypes = length (gstore self), pm_num_samples = num_samples self,
                pm_sites = [l], pm_num_sites = 1\<rparr>"
    let ?bucket' = "take i ?bucket @ ?new # drop i ?bucket"
    have fin: "?bucket \<in> set (frequency_map self)" using miss len by simp
    have keep: "\<forall>k<num_sites self. site_genotypes (sites self ! k) \<noteq> None
        \<longrightarrow> site_genotypes (sites self' ! k) \<noteq> None"
      using miss len by (auto simp: nth_list_update)
    have grow: "length (gstore self) \<le> length (gstore self')" using miss by simp
    have newok: "entry_ok self' ?new"
      using miss len fr(2) by (simp add: entry_ok_def)
    have set_bucket': "set ?bucket' = insert ?new (set ?bucket)"
    proof -
      have "set (take i ?bucket) \<union> set (drop i ?bucket) = set ?bucket"
        by (simp only: set_append [symmetric] append_take_drop_id)
      then show ?thesis by simp
    qed
    have same: "map (\<lambda>e. gstore self' ! pm_genotypes e) bucket = map (\<lambda>e. gstore self ! pm_genotypes e) bucket"
      if "bucket \<in> set (frequency_map self)" for bucket
    proof (rule map_cong [OF refl])
      fix e assume "e \<in> set bucket"
      from buckets [OF that this] have "pm_genotypes e < length (gstore self)"
        by (simp add: entry_ok_def)
      then show "gstore self' ! pm_genotypes e = gstore self ! pm_genotypes e"
        using miss(9) by (simp add: nth_append)
    qed
    have A: "entry_ok self' e" if "bucket \<in> set (frequency_map self')" "e \<in> set bucket" for bucket e
    proof -
      from that(1) miss(8) have "bucket = ?bucket' \<or> bucket \<in> set (frequency_map self)"
        by (auto dest: in_set_updateD)
      then show ?thesis
      proof
        assume "bucket \<in> set (frequency_map self)"
        from entry_ok_mono [OF buckets [OF this that(2)] grow fr(2) keep] show ?thesis .
      next
        assume "bucket = ?bucket'"
        with that(2) set_bucket' have "e = ?new \<or> e \<in> set ?bucket" by auto
        then show ?thesis
        proof
          assume "e = ?new" with newok show ?thesis by simp
        next
          assume "e \<in> set ?bucket"
          from entry_ok_mono [OF buckets [OF fin this] grow fr(2) keep] show ?thesis .
        qed
      qed
    qed
    have B: "distinct (map (\<lambda>e. gstore self' ! pm_genotypes e) bucket)"
      if "bucket \<in> set (frequency_map self')" for bucket
    proof -
      from that miss(8) have "bucket = ?bucket' \<or> bucket \<in> set (frequency_map self)"
        by (auto dest: in_set_updateD)
      then show ?thesis
      proof
        assume m: "bucket \<in> set (frequency_map self)"
        show ?thesis unfolding same [OF m] by (rule dist [OF m])
      next
        assume b: "bucket = ?bucket'"
        let ?h = "\<lambda>e. gstore self ! pm_genotypes e"
        let ?h' = "\<lambda>e. gstore self' ! pm_genotypes e"
        have old: "map ?h' xs = map ?h xs" if "set xs \<subseteq> set ?bucket" for xs
        proof (rule map_cong [OF refl])
          fix e assume "e \<in> set xs"
          with that have "e \<in> set ?bucket" by auto
          from buckets [OF fin this] have "pm_genotypes e < length (gstore self)"
            by (simp add: entry_ok_def)
          then show "?h' e = ?h e" using miss(9) by (simp add: nth_append)
        qed
        have new: "?h' ?new = take (num_samples self) g" using miss(9) by simp
        have d: "distinct (map ?h (take i ?bucket) @ map ?h (drop i ?bucket))"
          using dist [OF fin] by (simp only: map_append [symmetric] append_take_drop_id)
        have notin: "take (num_samples self) g \<notin> set (map ?h ?bucket)"
          using miss(6) by auto
        then have notin': "take (num_samples self) g \<notin> set (map ?h (take i ?bucket))"
            "take (num_samples self) g \<notin> set (map ?h (drop i ?bucket))"
          by (auto dest: in_set_takeD in_set_dropD)
        have eqm: "map ?h' ?bucket' = map ?h (take i ?bucket) @ take (num_samples self) g # map ?h (drop i ?bucket)"
          by (simp only: map_append list.map old [OF set_take_subset] old [OF set_drop_subset] new)
        show ?thesis unfolding b eqm using d notin' by auto
      qed
    qed
    have C: "a < length (gstore self')" if "s \<in> set (sites self')" "site_genotypes s = Some a" for s a
    proof -
      from that(1) miss(7) have "s = \<lparr>site_frequency = f, site_genotypes = Some (length (gstore self))\<rparr>
           \<or> s \<in> set (sites self)"
        by (auto dest: in_set_updateD)
      with that(2) site_ok [of s a] miss(9) show ?thesis by (auto simp: less_Suc_eq)
    qed
    have D: "site_genotypes s \<noteq> None" if "s \<in> set (sites self')" "2 \<le> site_frequency s" for s
    proof -
      from that(1) miss(7) have "s = \<lparr>site_frequency = f, site_genotypes = Some (length (gstore self))\<rparr>
           \<or> s \<in> set (sites self)"
        by (auto dest: in_set_updateD)
      with that(2) site_some [of s] show ?thesis by auto
    qed
    have E: "length b = num_samples self'" if "b \<in> set (gstore self')" for b
      using that bufs miss(4,9) fr(1) by auto
    show ?thesis
      unfolding builder_inv_def using lens A B C D E by auto
  qed
qed

lemma alloc_fields:
  assumes "ancestor_builder_alloc mem ns m fl = Inr b"
  shows "num_samples b = ns" "num_sites b = m"
    "sites b = replicate m \<lparr>site_frequency = 0, site_genotypes = None\<rparr>"
    "frequency_map b = replicate (ns + 1) []"
    "descriptors b = replicate m \<lparr>d_frequency = 0, d_num_focal_sites = 0, d_focal_sites = None\<rparr>"
    "num_ancestors b = 0" "gstore b = []" "focal_store (allocator b) = []"
  using assms
  by (auto simp: ancestor_builder_alloc_def split: prod.splits if_splits)

lemma alloc_inv:
  assumes "ancestor_builder_alloc mem ns m fl = Inr b"
  shows "builder_inv b"
  using alloc_fields [OF assms] by (auto simp: builder_inv_def)

lemma add_sites_inv:
  "builder_inv self \<Longrightarrow> add_sites calls self = Inr self' \<Longrightarrow> builder_inv self'"
proof (induction calls arbitrary: self)
  case Nil
  then show ?case by simp
next
  case (Cons c calls)
  obtain l f g where c: "c = (l, f, g)" by (cases c)
  from Cons.prems(2) c obtain self1 where
    s1: "ancestor_builder_add_site self l f g = Inr self1" "add_sites calls self1 = Inr self'"
    by (auto split: sum.splits)
  from Cons.IH [OF add_site_inv [OF Cons.prems(1) s1(1)] s1(2)] show ?case .
qed

lemma add_sites_append:
  "add_sites (xs @ ys) self =
     (case add_sites xs self of Inl e \<Rightarrow> Inl e | Inr self' \<Rightarrow> add_sites ys self')"
  by (induction xs arbitrary: self) (auto split: sum.splits)

lemma add_sites_frame:
  "add_sites calls self = Inr self' \<Longrightarrow>
     num_samples self' = num_samples self \<and> num_sites self' = num_sites self \<and>
     descriptors self' = descriptors self \<and> num_ancestors self' = num_ancestors self \<and>
     focal_store (allocator self') = focal_store (allocator self)"
proof (induction calls arbitrary: self)
  case Nil
  then show ?case by simp
next
  case (Cons c calls)
  obtain l f g where c: "c = (l, f, g)" by (cases c)
  from Cons.prems c obtain self1 where
    s1: "ancestor_builder_add_site self l f g = Inr self1" "add_sites calls self1 = Inr self'"
    by (auto split: sum.splits)
  from Cons.IH [OF s1(2)] add_site_frame [OF s1(1)] show ?case by simp
qed

lemma site_pattern_established:
  assumes inv: "builder_inv self"
    and run: "ancestor_builder_add_site self l f g = Inr self'"
    and f: "2 \<le> f"
  shows "site_pattern self' l f (take (num_samples self) g)"
proof -
  note fr = add_site_frame [OF run]
  from inv have len: "length (sites self) = num_sites self"
      "length (frequency_map self) = num_samples self + 1"
    by (auto simp: builder_inv_def)
  from inv run show ?thesis
  proof (cases rule: add_site_cases)
    case low
    with f show ?thesis by simp
  next
    case (hit i)
    let ?e = "frequency_map self ! f ! i"
    have a: "push_site l ?e \<in> set (frequency_map self' ! f)"
      using hit len by (simp add: set_update_memI)
    have b: "site_genotypes (sites self' ! l) = Some (pm_genotypes (push_site l ?e))"
      "site_frequency (sites self' ! l) = f"
      using hit len by simp_all
    have c: "gstore self' ! pm_genotypes (push_site l ?e) = take (num_samples self) g"
      using hit by simp
    show ?thesis
      unfolding site_pattern_def using b c hit(2,3) fr(1,2)
      by (intro conjI bexI [OF _ a]) simp_all
  next
    case (miss i)
    let ?new = "\<lparr>pm_genotypes = length (gstore self), pm_num_samples = num_samples self,
                pm_sites = [l], pm_num_sites = 1\<rparr>"
    have a: "?new \<in> set (frequency_map self' ! f)"
      using miss len by simp
    have b: "site_genotypes (sites self' ! l) = Some (pm_genotypes ?new)"
      "site_frequency (sites self' ! l) = f"
      using miss len by simp_all
    have c: "gstore self' ! pm_genotypes ?new = take (num_samples self) g"
      using miss by simp
    show ?thesis
      unfolding site_pattern_def using b c miss(2,3) fr(1,2)
      by (intro conjI bexI [OF _ a]) simp_all
  qed
qed

lemma site_pattern_preserved:
  assumes inv: "builder_inv self"
    and run: "ancestor_builder_add_site self l' f' g' = Inr self'"
    and other: "l' \<noteq> l"
    and pat: "site_pattern self l f c"
  shows "site_pattern self' l f c"
proof -
  note fr = add_site_frame [OF run]
  from inv have len: "length (sites self) = num_sites self"
      "length (frequency_map self) = num_samples self + 1"
    by (auto simp: builder_inv_def)
  from pat obtain e where e: "l < num_sites self" "f \<le> num_samples self"
      "site_frequency (sites self ! l) = f" "e \<in> set (frequency_map self ! f)"
      "site_genotypes (sites self ! l) = Some (pm_genotypes e)" "gstore self ! pm_genotypes e = c"
    by (auto simp: site_pattern_def)
  have fin: "frequency_map self ! f \<in> set (frequency_map self)" using e(2) len by simp
  have addr: "pm_genotypes e < length (gstore self)"
    using inv fin e(4) by (auto simp: builder_inv_def entry_ok_def)
  from inv run show ?thesis
  proof (cases rule: add_site_cases)
    case low
    with e other fr show ?thesis by (auto simp: site_pattern_def)
  next
    case (hit i)
    let ?b = "frequency_map self ! f'"
    have "\<exists>e'\<in>set (frequency_map self' ! f). pm_genotypes e' = pm_genotypes e"
    proof (cases "f = f'")
      case False
      with hit e(4) show ?thesis by auto
    next
      case True
      from e(4) obtain k where k: "k < length ?b" "?b ! k = e"
        unfolding True by (auto simp: in_set_conv_nth)
      have "(?b[i := push_site l' (?b ! i)]) ! k \<in> set (?b[i := push_site l' (?b ! i)])"
        using k(1) by simp
      moreover have "pm_genotypes ((?b[i := push_site l' (?b ! i)]) ! k) = pm_genotypes e"
        using k hit(5) by (cases "k = i") simp_all
      ultimately show ?thesis using hit(8) True len hit(3) by auto
    qed
    then obtain e' where e': "e' \<in> set (frequency_map self' ! f)" "pm_genotypes e' = pm_genotypes e"
      by blast
    show ?thesis
      unfolding site_pattern_def using e e'(2) other hit(7,9) fr(1,2)
      by (intro conjI bexI [OF _ e'(1)]) simp_all
  next
    case (miss i)
    let ?b = "frequency_map self ! f'"
    have ein: "e \<in> set (frequency_map self' ! f)"
    proof (cases "f = f'")
      case False
      with miss e(4) show ?thesis by auto
    next
      case True
      have "set (take i ?b) \<union> set (drop i ?b) = set ?b"
        by (simp only: set_append [symmetric] append_take_drop_id)
      with e(4) True miss(8) len miss(3) show ?thesis by auto
    qed
    have "gstore self' ! pm_genotypes e = c"
      using miss(9) addr e(6) by (simp add: nth_append)
    then show ?thesis
      unfolding site_pattern_def using e other miss(7) fr(1,2)
      by (intro conjI bexI [OF _ ein]) simp_all
  qed
qed

lemma site_pattern_add_sites:
  assumes "builder_inv self" "add_sites calls self = Inr self'"
    "l \<notin> fst ` set calls" "site_pattern self l f c"
  shows "site_pattern self' l f c"
  using assms
proof (induction calls arbitrary: self)
  case Nil
  then show ?case by simp
next
  case (Cons x calls)
  obtain l' f' g' where x: "x = (l', f', g')" by (cases x)
  from Cons.prems(2) x obtain self1 where
    s1: "ancestor_builder_add_site self l' f' g' = Inr self1" "add_sites calls self1 = Inr self'"
    by (auto split: sum.splits)
  from Cons.prems(3) x have ne: "l' \<noteq> l" "l \<notin> fst ` set calls" by auto
  from Cons.IH [OF add_site_inv [OF Cons.prems(1) s1(1)] s1(2) ne(2)
      site_pattern_preserved [OF Cons.prems(1) s1(1) ne(1) Cons.prems(4)]]
  show ?case .
qed

lemma site_pattern_last_call:
  assumes inv: "builder_inv self"
    and run: "add_sites (pre @ (l, f, g) # post) self = Inr self'"
    and last: "l \<notin> fst ` set post" and f: "2 \<le> f"
  shows "site_pattern self' l f (take (num_samples self') g)"
proof -
  from run obtain s1 s2 where s: "add_sites pre self = Inr s1"
      "ancestor_builder_add_site s1 l f g = Inr s2" "add_sites post s2 = Inr self'"
    by (auto simp: add_sites_append split: sum.splits)
  have i1: "builder_inv s1" by (rule add_sites_inv [OF inv s(1)])
  have i2: "builder_inv s2" by (rule add_site_inv [OF i1 s(2)])
  have ns: "num_samples self' = num_samples s1"
    using add_sites_frame [OF s(3)] add_site_frame(1) [OF s(2)] by simp
  from site_pattern_add_sites [OF i2 s(3) last site_pattern_established [OF i1 s(2) f]]
  show ?thesis by (simp add: ns)
qed

lemma site_pattern_buf:
  assumes "builder_inv self" "site_pattern self l f c"
  shows "site_genotypes_buf self l = Some c"
proof -
  from assms(2) obtain e where e: "l < num_sites self" "f \<le> num_samples self"
      "e \<in> set (frequency_map self ! f)"
      "site_genotypes (sites self ! l) = Some (pm_genotypes e)" "gstore self ! pm_genotypes e = c"
    by (auto simp: site_pattern_def)
  from assms(1) have len: "length (sites self) = num_sites self"
      "length (frequency_map self) = num_samples self + 1"
    by (auto simp: builder_inv_def)
  have fin: "frequency_map self ! f \<in> set (frequency_map self)" using e(2) len by simp
  have "pm_genotypes e < length (gstore self)"
    using assms(1) fin e(3) by (auto simp: builder_inv_def entry_ok_def)
  with e len show ?thesis by (simp add: site_genotypes_buf_def)
qed

lemma site_pattern_shared:
  assumes "builder_inv self" "site_pattern self l1 f c" "site_pattern self l2 f c"
  shows "site_genotypes (sites self ! l1) = site_genotypes (sites self ! l2)"
proof -
  let ?h = "\<lambda>e. gstore self ! pm_genotypes e"
  from assms(2) obtain e1 where e1: "f \<le> num_samples self" "e1 \<in> set (frequency_map self ! f)"
      "site_genotypes (sites self ! l1) = Some (pm_genotypes e1)" "?h e1 = c"
    by (auto simp: site_pattern_def)
  from assms(3) obtain e2 where e2: "e2 \<in> set (frequency_map self ! f)"
      "site_genotypes (sites self ! l2) = Some (pm_genotypes e2)" "?h e2 = c"
    by (auto simp: site_pattern_def)
  from assms(1) have len: "length (frequency_map self) = num_samples self + 1"
    by (auto simp: builder_inv_def)
  have fin: "frequency_map self ! f \<in> set (frequency_map self)" using e1(1) len by simp
  with assms(1) have "distinct (map ?h (frequency_map self ! f))"
    by (auto simp: builder_inv_def)
  then have "inj_on ?h (set (frequency_map self ! f))" by (simp add: distinct_map)
  with e1 e2 have "e1 = e2" by (auto dest: inj_onD)
  with e1 e2 show ?thesis by simp
qed

text \<open>
  Claim C10. After alloc and any sequence of successful calls of add site: if the last
  call for site \<open>l1\<close> had frequency \<open>f\<close> of at least 2 and genotypes \<open>g1\<close>, the
  buffer \<open>sites[l1].genotypes\<close> holds the \<open>num_samples\<close> alleles supplied; and if the last
  call for site \<open>l2\<close> had the same frequency and the same alleles, both sites hold the
  same pointer, so that the shared buffer has the contents first added.
\<close>

theorem canonical_genotypes_shared:
  assumes alloc: "ancestor_builder_alloc mem ns m fl = Inr b0"
    and run: "add_sites calls b0 = Inr b"
    and c1: "calls = pre1 @ (l1, f, g1) # post1" "l1 \<notin> fst ` set post1"
    and c2: "calls = pre2 @ (l2, f, g2) # post2" "l2 \<notin> fst ` set post2"
    and f: "2 \<le> f"
    and same: "take ns g1 = take ns g2"
  shows "site_genotypes_buf b l1 = Some (take ns g1) \<and>
         site_genotypes_buf b l2 = Some (take ns g1) \<and>
         site_genotypes (sites b ! l1) = site_genotypes (sites b ! l2) \<and>
         site_genotypes (sites b ! l1) \<noteq> None"
proof -
  have inv0: "builder_inv b0" by (rule alloc_inv [OF alloc])
  have inv: "builder_inv b" by (rule add_sites_inv [OF inv0 run])
  have ns: "num_samples b = ns"
    using add_sites_frame [OF run] alloc_fields(1) [OF alloc] by simp
  have p1: "site_pattern b l1 f (take ns g1)"
    using site_pattern_last_call [OF inv0 run [unfolded c1(1)] c1(2) f] ns by simp
  have p2: "site_pattern b l2 f (take ns g1)"
    using site_pattern_last_call [OF inv0 run [unfolded c2(1)] c2(2) f] ns same by simp
  from p1 have "site_genotypes (sites b ! l1) \<noteq> None" by (auto simp: site_pattern_def)
  with site_pattern_buf [OF inv p1] site_pattern_buf [OF inv p2] site_pattern_shared [OF inv p1 p2]
  show ?thesis by simp
qed

theorem canonical_genotypes_shared_witness:
  "add_sites example_calls (projr (ancestor_builder_alloc [] 5 5 0)) = Inr example_builder \<and>
   site_genotypes_buf example_builder 1 = Some [1, 1, 0, 1, 1] \<and>
   site_genotypes_buf example_builder 2 = Some [1, 1, 0, 1, 1] \<and>
   site_genotypes (sites example_builder ! 1) = Some 1 \<and>
   site_genotypes (sites example_builder ! 2) = Some 1"
  using canonical_genotypes_shared [of "[]" 5 5 0 "projr (ancestor_builder_alloc [] 5 5 0)"
      example_calls example_builder
      "[(0, 3, [1, 1, 1, 0, 0])]" 1 4 "[1, 1, 0, 1, 1]"
      "[(2, 4, [1, 1, 0, 1, 1]), (3, 4, [0, 1, 1, 1, 1]), (4, 4, [0, 1, 1, 1, 1])]"
      "[(0, 3, [1, 1, 1, 0, 0]), (1, 4, [1, 1, 0, 1, 1])]" 2 "[1, 1, 0, 1, 1]"
      "[(3, 4, [0, 1, 1, 1, 1]), (4, 4, [0, 1, 1, 1, 1])]"]
  by (simp add: example_calls_def example_builder_def builder_eval site_genotypes_buf_def
        replicate_numeral_eval list_update_numeral_eval)

section \<open>Properties of finalise\<close>

lemma size_sub_one: "0 < a \<Longrightarrow> a < 2 ^ 64 \<Longrightarrow> size_sub a 1 = a - 1"
  using size_sub_le [of 1 a] by simp

lemma fill_focal_sites_prefix:
  assumes "length ss \<le> length arr" "length ss < 2 ^ 64" "ss = [] \<or> k = length ss - 1"
  shows "fill_focal_sites arr k ss = Inr (rev ss @ drop (length ss) arr)"
  using assms
proof (induction ss arbitrary: arr k)
  case Nil
  then show ?case by simp
next
  case (Cons s ss)
  let ?m = "length ss"
  from Cons.prems have k: "k = ?m" "?m < length arr" by auto
  have next_k: "ss = [] \<or> size_sub k 1 = length ss - 1"
  proof (cases ss)
    case Nil
    then show ?thesis by simp
  next
    case (Cons a list)
    then have "0 < k" using k by simp
    moreover have "k < 2 ^ 64" using Cons.prems(2) k by simp
    ultimately have "size_sub k 1 = k - 1" by (rule size_sub_one)
    then show ?thesis using k by simp
  qed
  have "fill_focal_sites (arr[k := s]) (size_sub k 1) ss = Inr (rev ss @ drop ?m (arr[k := s]))"
    using Cons.prems k by (intro Cons.IH next_k) simp_all
  moreover have "drop ?m (arr[k := s]) = s # drop (Suc ?m) arr"
    using k by (simp add: drop_update_swap Cons_nth_drop_Suc [symmetric] upd_conv_take_nth_drop)
  ultimately show ?case using k by simp
qed

lemma fill_focal_sites_rev:
  assumes "length arr = length ss" "ss \<noteq> []" "length ss < 2 ^ 64"
  shows "fill_focal_sites arr (size_sub (length ss) 1) ss = Inr (rev ss)"
proof -
  have "size_sub (length ss) 1 = length ss - 1"
    by (rule size_sub_one) (use assms in simp_all)
  with fill_focal_sites_prefix [of ss arr "size_sub (length ss) 1"] assms show ?thesis by simp
qed

lemma descriptor_eqI:
  "d_frequency d = j \<Longrightarrow> d_num_focal_sites d = 1 \<Longrightarrow> d_focal_sites d = Some (block, k)
     \<Longrightarrow> (d :: ancestor_descriptor_t) = emitted_descriptor j block k"
  by (cases d) (simp add: emitted_descriptor_def)

lemma split_descriptors_fields:
  assumes "split_descriptors j block n [k0 ..< n - 1] cur self = Inr self'"
    and "d_focal_sites (descriptors self ! cur) = Some (block, k0)"
    and "d_num_focal_sites (descriptors self ! cur) = n - k0"
    and "d_frequency (descriptors self ! cur) = j"
    and "num_ancestors self = cur + 1" "cur < length (descriptors self)"
    and "k0 < n" "n < 2 ^ 64"
  shows "num_ancestors self' = cur + (n - k0) \<and>
         num_ancestors self' \<le> length (descriptors self') \<and>
         length (descriptors self') = length (descriptors self) \<and>
         (\<forall>i<n - k0. descriptors self' ! (cur + i) = emitted_descriptor j block (k0 + i)) \<and>
         (\<forall>i<cur. descriptors self' ! i = descriptors self ! i) \<and>
         allocator self' = allocator self \<and> sites self' = sites self \<and>
         frequency_map self' = frequency_map self \<and>
         num_samples self' = num_samples self \<and> num_sites self' = num_sites self"
  using assms
proof (induction "n - 1 - k0" arbitrary: k0 cur self)
  case 0
  then have k0: "k0 = n - 1" by simp
  with 0 have "self' = self" by simp
  moreover have "descriptors self ! cur = emitted_descriptor j block k0"
    using 0 k0 by (intro descriptor_eqI) simp_all
  ultimately show ?case using 0 k0 by simp
next
  case (Suc d)
  let ?ds = "descriptors self"
  from Suc.hyps(2) have k0: "k0 < n - 1" by simp
  then have upt: "[k0 ..< n - 1] = k0 # [Suc k0 ..< n - 1]" by (simp add: upt_rec)
  let ?ds1 = "?ds[cur := (?ds ! cur)\<lparr>d_num_focal_sites := size_sub (k0 + 1) k0\<rparr>]"
  let ?new = "cur + 1"
  let ?nd = "(?ds1 ! ?new)\<lparr>d_frequency := j, d_num_focal_sites := size_sub (size_sub n k0) 1,
                 d_focal_sites := Some (block, k0 + 1)\<rparr>"
  let ?self2 = "self\<lparr>num_ancestors := ?new + 1, descriptors := ?ds1[?new := ?nd]\<rparr>"
  have one: "size_sub (k0 + 1) k0 = 1"
    using Suc.prems(8) k0 by (simp add: size_sub_le)
  have rest: "size_sub (size_sub n k0) 1 = n - (k0 + 1)"
  proof -
    have "size_sub n k0 = n - k0" using Suc.prems(8) k0 by (simp add: size_sub_le)
    moreover have "size_sub (n - k0) 1 = n - k0 - 1"
      by (rule size_sub_one) (use Suc.prems(8) k0 in simp_all)
    ultimately show ?thesis by simp
  qed
  from Suc.prems(1) have run: "?new < length ?ds" "split_descriptors j block n [Suc k0 ..< n - 1] ?new ?self2 = Inr self'"
    unfolding upt using Suc.prems(2,5)
    by (auto simp: Let_def split: if_splits)
  have IH: "num_ancestors self' = ?new + (n - Suc k0) \<and>
         num_ancestors self' \<le> length (descriptors self') \<and>
         length (descriptors self') = length (descriptors ?self2) \<and>
         (\<forall>i<n - Suc k0. descriptors self' ! (?new + i) = emitted_descriptor j block (Suc k0 + i)) \<and>
         (\<forall>i<?new. descriptors self' ! i = descriptors ?self2 ! i) \<and>
         allocator self' = allocator ?self2 \<and> sites self' = sites ?self2 \<and>
         frequency_map self' = frequency_map ?self2 \<and>
         num_samples self' = num_samples ?self2 \<and> num_sites self' = num_sites ?self2"
  proof (rule Suc.hyps(1) [OF _ run(2)])
    show "d = n - 1 - Suc k0" using Suc.hyps(2) by simp
    show "d_focal_sites (descriptors ?self2 ! ?new) = Some (block, Suc k0)"
      using run(1) by simp
    show "d_num_focal_sites (descriptors ?self2 ! ?new) = n - Suc k0"
      using run(1) rest by simp
    show "d_frequency (descriptors ?self2 ! ?new) = j" using run(1) by simp
    show "num_ancestors ?self2 = ?new + 1" by simp
    show "?new < length (descriptors ?self2)" using run(1) by simp
    show "Suc k0 < n" using k0 by simp
    show "n < 2 ^ 64" by (rule Suc.prems(8))
  qed
  have cur_desc: "descriptors self' ! cur = emitted_descriptor j block k0"
  proof -
    from IH have "descriptors self' ! cur = descriptors ?self2 ! cur" by simp
    also have "\<dots> = (?ds ! cur)\<lparr>d_num_focal_sites := 1\<rparr>"
      using Suc.prems(6) one by simp
    also have "\<dots> = emitted_descriptor j block k0"
      using Suc.prems(2,4) by (intro descriptor_eqI) simp_all
    finally show ?thesis .
  qed
  have all: "descriptors self' ! (cur + i) = emitted_descriptor j block (k0 + i)" if "i < n - k0" for i
  proof (cases i)
    case 0
    with cur_desc show ?thesis by simp
  next
    case (Suc i')
    with that have "i' < n - Suc k0" by simp
    with IH have "descriptors self' ! (?new + i') = emitted_descriptor j block (Suc k0 + i')" by blast
    with Suc show ?thesis by simp
  qed
  have low: "descriptors self' ! i = descriptors self ! i" if "i < cur" for i
  proof -
    from IH that have "descriptors self' ! i = descriptors ?self2 ! i" by simp
    with that show ?thesis by simp
  qed
  from IH all low k0 show ?case by simp
qed

lemma descriptor_view_extend:
  assumes "d_focal_sites d = Some (block, k)" "block < length (focal_store (allocator self))"
    "focal_store (allocator self') = focal_store (allocator self) @ ext"
  shows "descriptor_view self' d = descriptor_view self d"
  using assms by (simp add: descriptor_view_def descriptor_focal_sites_def nth_append)

lemma view_emitted_descriptor:
  assumes "block < length (focal_store (allocator self))" "k < length (focal_store (allocator self) ! block)"
  shows "descriptor_view self (emitted_descriptor j block k) = (j, 1, [focal_store (allocator self) ! block ! k])"
  using assms
  by (simp add: descriptor_view_def descriptor_focal_sites_def emitted_descriptor_def
        take_Suc_conv_app_nth [of 0, simplified] hd_drop_conv_nth take_Suc)

lemma finalise_entry_effect:
  assumes run: "finalise_entry j e self = Inr self'"
    and n: "pm_num_sites e = length (pm_sites e)" "pm_sites e \<noteq> []" "length (pm_sites e) < 2 ^ 64"
    and inv: "emitted_inv self"
  shows "emitted_view self' = emitted_view self @ entry_view j e"
    and "emitted_inv self'"
    and "focal_store (allocator self') = focal_store (allocator self) @ [rev (pm_sites e)]"
    and "sites self' = sites self" "frequency_map self' = frequency_map self"
    and "num_samples self' = num_samples self" "num_sites self' = num_sites self"
    and "length (descriptors self') = length (descriptors self)"
    and "gstore self' = gstore self"
proof -
  let ?n = "length (pm_sites e)"
  let ?cur = "num_ancestors self"
  let ?fs = "focal_store (allocator self)"
  let ?block = "length ?fs"
  let ?ds = "descriptors self"
  have n1: "size_sub ?n 1 = ?n - 1"
    by (rule size_sub_one) (use n in simp_all)
  from run have cur: "?cur < length ?ds"
    by (auto simp: finalise_entry_def Let_def split: if_splits)
  obtain al where al: "block_allocator_get_sites (allocator self) ?n = (Some ?block, al)"
      "focal_store al = ?fs @ [replicate ?n 0]" "genotype_store al = gstore self"
    using run cur n(1)
    by (auto simp: finalise_entry_def Let_def block_allocator_get_sites_def block_allocator_get_def
          split: prod.splits option.splits if_splits)
  have fill: "fill_focal_sites (focal_store al ! ?block) (size_sub ?n 1) (pm_sites e) = Inr (rev (pm_sites e))"
    using al(2) n by (intro fill_focal_sites_rev) simp_all
  let ?al' = "al\<lparr>focal_store := (focal_store al)[?block := rev (pm_sites e)]\<rparr>"
  let ?self1 = "self\<lparr>num_ancestors := ?cur + 1,
                      descriptors := ?ds[?cur := (?ds ! ?cur)\<lparr>d_frequency := j, d_num_focal_sites := ?n,
                                                           d_focal_sites := Some (?block, 0)\<rparr>],
                      allocator := ?al'\<rparr>"
  from run cur al(1) fill n(1) n1 have split: "split_descriptors j ?block ?n [0 ..< ?n - 1] ?cur ?self1 = Inr self'"
    by (auto simp: finalise_entry_def Let_def split: sum.splits if_splits)
  have S: "num_ancestors self' = ?cur + (?n - 0) \<and>
         num_ancestors self' \<le> length (descriptors self') \<and>
         length (descriptors self') = length (descriptors ?self1) \<and>
         (\<forall>i<?n - 0. descriptors self' ! (?cur + i) = emitted_descriptor j ?block (0 + i)) \<and>
         (\<forall>i<?cur. descriptors self' ! i = descriptors ?self1 ! i) \<and>
         allocator self' = allocator ?self1 \<and> sites self' = sites ?self1 \<and>
         frequency_map self' = frequency_map ?self1 \<and>
         num_samples self' = num_samples ?self1 \<and> num_sites self' = num_sites ?self1"
    by (rule split_descriptors_fields [OF split]) (use cur n in simp_all)
  have store: "focal_store (allocator self') = ?fs @ [rev (pm_sites e)]"
    using S al(2) by simp
  show "focal_store (allocator self') = ?fs @ [rev (pm_sites e)]" by (rule store)
  show "sites self' = sites self" "frequency_map self' = frequency_map self"
    "num_samples self' = num_samples self" "num_sites self' = num_sites self"
    "length (descriptors self') = length (descriptors self)"
    using S by simp_all
  show "gstore self' = gstore self" using S al(3) by simp
  have em: "emitted self' = emitted self @ map (emitted_descriptor j ?block) [0 ..< ?n]"
  proof (rule nth_equalityI)
    show "length (emitted self') = length (emitted self @ map (emitted_descriptor j ?block) [0 ..< ?n])"
      using S cur by (simp add: emitted_def)
  next
    fix i assume "i < length (emitted self')"
    then have i: "i < ?cur + ?n" using S by (simp add: emitted_def)
    show "emitted self' ! i = (emitted self @ map (emitted_descriptor j ?block) [0 ..< ?n]) ! i"
    proof (cases "i < ?cur")
      case True
      with S cur i show ?thesis by (simp add: emitted_def nth_append)
    next
      case False
      then obtain i' where i': "i = ?cur + i'" "i' < ?n" using i by (metis add_diff_inverse_nat nat_add_left_cancel_less)
      with S have "descriptors self' ! i = emitted_descriptor j ?block i'" by simp
      with i' S cur show ?thesis by (simp add: emitted_def nth_append)
    qed
  qed
  have old: "descriptor_view self' d = descriptor_view self d" if "d \<in> set (emitted self)" for d
  proof -
    from inv that obtain block k where "d_focal_sites d = Some (block, k)" "block < length ?fs"
      by (auto simp: emitted_inv_def)
    then show ?thesis using store by (rule descriptor_view_extend)
  qed
  have new: "descriptor_view self' (emitted_descriptor j ?block k) = (j, 1, [rev (pm_sites e) ! k])"
    if "k < ?n" for k
    using view_emitted_descriptor [of ?block self' k j] store that by simp
  have "map (descriptor_view self') (map (emitted_descriptor j ?block) [0 ..< ?n])
          = map (\<lambda>k. (j, 1, [rev (pm_sites e) ! k])) [0 ..< ?n]"
    using new by simp
  also have "\<dots> = map (\<lambda>s. (j, 1, [s])) (map (\<lambda>k. rev (pm_sites e) ! k) [0 ..< length (rev (pm_sites e))])"
    by simp
  also have "\<dots> = entry_view j e"
    unfolding map_nth entry_view_def ..
  finally have newv: "map (descriptor_view self') (map (emitted_descriptor j ?block) [0 ..< ?n]) = entry_view j e" .
  have "map (descriptor_view self') (emitted self) = map (descriptor_view self) (emitted self)"
    using old by simp
  with newv show "emitted_view self' = emitted_view self @ entry_view j e"
    by (simp add: emitted_view_def em)
  show "emitted_inv self'"
    unfolding emitted_inv_def
  proof (intro conjI ballI)
    show "num_ancestors self' \<le> length (descriptors self')" using S by simp
  next
    fix d assume "d \<in> set (emitted self')"
    then consider "d \<in> set (emitted self)" | k where "d = emitted_descriptor j ?block k"
      unfolding em by auto
    then show "\<exists>block k. d_focal_sites d = Some (block, k) \<and> block < length (focal_store (allocator self'))"
    proof cases
      case 1
      with inv store show ?thesis by (fastforce simp: emitted_inv_def)
    next
      case 2
      with store show ?thesis by (simp add: emitted_descriptor_def)
    qed
  qed
qed

lemma finalise_frame_refl [simp]: "finalise_frame self self"
  by (simp add: finalise_frame_def)

lemma finalise_frame_trans:
  "finalise_frame a b \<Longrightarrow> finalise_frame b c \<Longrightarrow> finalise_frame a c"
  by (simp add: finalise_frame_def)

lemma finalise_bucket_effect:
  assumes "finalise_bucket j es self = Inr self'" "\<forall>e\<in>set es. entry_sized e" "emitted_inv self"
  shows "emitted_view self' = emitted_view self @ concat (map (entry_view j) es) \<and>
         emitted_inv self' \<and> finalise_frame self self' \<and>
         focal_store (allocator self') = focal_store (allocator self) @ map (\<lambda>e. rev (pm_sites e)) es"
  using assms
proof (induction es arbitrary: self)
  case Nil
  then show ?case by simp
next
  case (Cons e es)
  from Cons.prems(1) obtain self1 where
    s1: "finalise_entry j e self = Inr self1" "finalise_bucket j es self1 = Inr self'"
    by (auto split: sum.splits)
  from Cons.prems(2) have e: "pm_num_sites e = length (pm_sites e)" "pm_sites e \<noteq> []"
      "length (pm_sites e) < 2 ^ 64"
    by (auto simp: entry_sized_def)
  note eff = finalise_entry_effect [OF s1(1) e Cons.prems(3)]
  have fr1: "finalise_frame self self1" using eff by (simp add: finalise_frame_def)
  from Cons.IH [OF s1(2) _ eff(2)] Cons.prems(2)
  have IH: "emitted_view self' = emitted_view self1 @ concat (map (entry_view j) es)"
    "emitted_inv self'" "finalise_frame self1 self'"
    "focal_store (allocator self') = focal_store (allocator self1) @ map (\<lambda>e. rev (pm_sites e)) es"
    by auto
  show ?case
    using IH eff(1,3) finalise_frame_trans [OF fr1 IH(3)] by simp
qed

lemma finalise_frequencies_effect:
  assumes "finalise_frequencies js self = Inr self'"
    "\<forall>j\<in>set js. \<forall>e\<in>set (frequency_map self ! j). entry_sized e" "emitted_inv self"
  shows "emitted_view self' = emitted_view self @ concat (map (bucket_view self) js) \<and>
         emitted_inv self' \<and> finalise_frame self self' \<and>
         focal_store (allocator self') = focal_store (allocator self) @
           map (\<lambda>e. rev (pm_sites e)) (concat (map (\<lambda>j. frequency_map self ! j) js))"
  using assms
proof (induction js arbitrary: self)
  case Nil
  then show ?case by simp
next
  case (Cons j js)
  from Cons.prems(1) obtain self1 where
    s1: "finalise_bucket j (frequency_map self ! j) self = Inr self1"
        "finalise_frequencies js self1 = Inr self'"
    by (auto split: sum.splits)
  from finalise_bucket_effect [OF s1(1) _ Cons.prems(3)] Cons.prems(2)
  have b: "emitted_view self1 = emitted_view self @ bucket_view self j"
    "emitted_inv self1" "finalise_frame self self1"
    "focal_store (allocator self1) = focal_store (allocator self) @
       map (\<lambda>e. rev (pm_sites e)) (frequency_map self ! j)"
    by (auto simp: bucket_view_def)
  have fm: "frequency_map self1 = frequency_map self" using b(3) by (simp add: finalise_frame_def)
  from Cons.IH [OF s1(2) _ b(2)] Cons.prems(2) fm
  have IH: "emitted_view self' = emitted_view self1 @ concat (map (bucket_view self1) js)"
    "emitted_inv self'" "finalise_frame self1 self'"
    "focal_store (allocator self') = focal_store (allocator self1) @
       map (\<lambda>e. rev (pm_sites e)) (concat (map (\<lambda>j. frequency_map self1 ! j) js))"
    by auto
  have bv: "bucket_view self1 = bucket_view self"
    by (rule ext) (simp add: bucket_view_def fm)
  show ?case
    using IH b(1,4) finalise_frame_trans [OF b(3) IH(3)] by (simp add: bv fm)
qed

lemma finalise_effect:
  assumes run: "ancestor_builder_finalise ok self = Inr self'"
    and sized: "\<forall>bucket\<in>set (frequency_map self). \<forall>e\<in>set bucket. entry_sized e"
    and len: "length (frequency_map self) = num_samples self + 1"
      "num_ancestors self \<le> length (descriptors self)"
  shows "emitted_view self' = concat (map (bucket_view self) (finalise_order self))"
    and "emitted_inv self'" and "finalise_frame self self'"
    and "focal_store (allocator self') = focal_store (allocator self) @
           map (\<lambda>e. rev (pm_sites e))
             (concat (map (\<lambda>j. frequency_map self ! j) (finalise_order self)))"
proof -
  let ?self0 = "self\<lparr>num_ancestors := 0\<rparr>"
  from run have r: "finalise_frequencies (finalise_order self) ?self0 = Inr self'"
    by (auto simp: ancestor_builder_finalise_def finalise_order_def split: if_splits)
  have inv0: "emitted_inv ?self0" by (simp add: emitted_inv_def emitted_def)
  have sz: "\<forall>j\<in>set (finalise_order self). \<forall>e\<in>set (frequency_map ?self0 ! j). entry_sized e"
    using sized len(1) by (auto simp: finalise_order_def)
  have bv: "bucket_view ?self0 = bucket_view self" by (rule ext) (simp add: bucket_view_def)
  from finalise_frequencies_effect [OF r sz inv0]
  show "emitted_view self' = concat (map (bucket_view self) (finalise_order self))"
    and "emitted_inv self'" and "finalise_frame self self'"
    and "focal_store (allocator self') = focal_store (allocator self) @
           map (\<lambda>e. rev (pm_sites e))
             (concat (map (\<lambda>j. frequency_map self ! j) (finalise_order self)))"
    by (simp_all add: bv emitted_view_def emitted_def finalise_frame_def)
qed

lemma mset_concat_update:
  assumes "i < length xs"
  shows "mset (concat (map h (xs[i := y]))) + mset (h (xs ! i)) = mset (concat (map h xs)) + mset (h y)"
proof -
  have xs: "xs = take i xs @ xs ! i # drop (Suc i) xs" using assms by (rule id_take_nth_drop)
  have "mset (concat (map h xs)) = mset (concat (map h (take i xs))) + mset (h (xs ! i))
          + mset (concat (map h (drop (Suc i) xs)))"
    by (subst xs) simp
  moreover have "mset (concat (map h (xs[i := y]))) = mset (concat (map h (take i xs))) + mset (h y)
          + mset (concat (map h (drop (Suc i) xs)))"
    using assms by (simp add: upd_conv_take_nth_drop)
  ultimately show ?thesis by simp
qed

lemma mset_concat_insert:
  "mset (concat (map h (take i xs @ y # drop i xs))) = mset (concat (map h xs)) + mset (h y)"
proof -
  have "mset (concat (map h xs)) = mset (concat (map h (take i xs @ drop i xs)))" by simp
  also have "\<dots> = mset (concat (map h (take i xs))) + mset (concat (map h (drop i xs)))"
    by (simp only: map_append concat_append mset_append)
  finally show ?thesis by simp
qed

lemma listed_sites_add_site:
  assumes inv: "builder_inv self"
    and run: "ancestor_builder_add_site self l f g = Inr self'"
  shows "mset (listed_sites self') = mset (listed_sites self) + (if 2 \<le> f then {#l#} else {#})"
proof -
  from inv have len: "length (frequency_map self) = num_samples self + 1"
    by (auto simp: builder_inv_def)
  let ?H = "\<lambda>bucket. concat (map pm_sites bucket)"
  from inv run show ?thesis
  proof (cases rule: add_site_cases)
    case low
    then show ?thesis by (simp add: listed_sites_def)
  next
    case (hit i)
    let ?B = "frequency_map self ! f"
    let ?B' = "?B[i := push_site l (?B ! i)]"
    have f: "f < length (frequency_map self)" using hit len by simp
    from mset_concat_update [OF hit(5), of pm_sites "push_site l (?B ! i)"]
    have inner: "mset (?H ?B') = mset (?H ?B) + {#l#}" by simp
    from mset_concat_update [OF f, of ?H ?B']
    have "mset (listed_sites self') + mset (?H ?B) = mset (listed_sites self) + mset (?H ?B')"
      by (simp add: listed_sites_def hit(8))
    with inner hit(1) show ?thesis by simp
  next
    case (miss i)
    let ?B = "frequency_map self ! f"
    let ?new = "\<lparr>pm_genotypes = length (gstore self), pm_num_samples = num_samples self,
                pm_sites = [l], pm_num_sites = 1\<rparr>"
    let ?B' = "take i ?B @ ?new # drop i ?B"
    have f: "f < length (frequency_map self)" using miss len by simp
    from mset_concat_insert [of pm_sites i ?B ?new]
    have inner: "mset (?H ?B') = mset (?H ?B) + {#l#}" by simp
    from mset_concat_update [OF f, of ?H ?B']
    have "mset (listed_sites self') + mset (?H ?B) = mset (listed_sites self) + mset (?H ?B')"
      by (simp add: listed_sites_def miss(8))
    with inner miss(1) show ?thesis by simp
  qed
qed

lemma listed_sites_add_sites:
  "builder_inv self \<Longrightarrow> add_sites calls self = Inr self' \<Longrightarrow>
     mset (listed_sites self') = mset (listed_sites self) + mset (older_calls calls)"
proof (induction calls arbitrary: self)
  case Nil
  then show ?case by (simp add: older_calls_def)
next
  case (Cons c calls)
  obtain l f g where c: "c = (l, f, g)" by (cases c)
  from Cons.prems(2) c obtain self1 where
    s1: "ancestor_builder_add_site self l f g = Inr self1" "add_sites calls self1 = Inr self'"
    by (auto split: sum.splits)
  from Cons.IH [OF add_site_inv [OF Cons.prems(1) s1(1)] s1(2)]
    listed_sites_add_site [OF Cons.prems(1) s1(1)] c
  show ?case by (simp add: older_calls_def)
qed

lemma low_buckets_add_site:
  assumes inv: "builder_inv self"
    and run: "ancestor_builder_add_site self l f g = Inr self'"
    and k: "k < 2" and empty: "frequency_map self ! k = []"
  shows "frequency_map self' ! k = []"
  using inv run
proof (cases rule: add_site_cases)
  case low
  with empty show ?thesis by simp
next
  case (hit i)
  with k empty show ?thesis by simp
next
  case (miss i)
  with k empty show ?thesis by simp
qed

lemma low_buckets_add_sites:
  "builder_inv self \<Longrightarrow> add_sites calls self = Inr self' \<Longrightarrow> k < 2 \<Longrightarrow>
     frequency_map self ! k = [] \<Longrightarrow> frequency_map self' ! k = []"
proof (induction calls arbitrary: self)
  case Nil
  then show ?case by simp
next
  case (Cons c calls)
  obtain l f g where c: "c = (l, f, g)" by (cases c)
  from Cons.prems(2) c obtain self1 where
    s1: "ancestor_builder_add_site self l f g = Inr self1" "add_sites calls self1 = Inr self'"
    by (auto split: sum.splits)
  from Cons.IH [OF add_site_inv [OF Cons.prems(1) s1(1)] s1(2) Cons.prems(3)
      low_buckets_add_site [OF Cons.prems(1) s1(1) Cons.prems(3,4)]]
  show ?case .
qed

lemma all_focal_sites_view:
  "all_focal_sites self = concat (map (\<lambda>v. snd (snd v)) (emitted_view self))"
  by (simp add: all_focal_sites_def emitted_view_def descriptor_view_def comp_def)

lemma entry_view_focal: "concat (map (\<lambda>v. snd (snd v)) (entry_view j e)) = rev (pm_sites e)"
proof -
  have "concat (map (\<lambda>v. snd (snd v)) (map (\<lambda>s. (j, 1::nat, [s])) xs)) = xs" for xs :: "site_id_t list"
    by (induction xs) auto
  then show ?thesis by (simp add: entry_view_def)
qed

lemma bucket_view_focal:
  "concat (map (\<lambda>v. snd (snd v)) (bucket_view self j))
     = concat (map (\<lambda>e. rev (pm_sites e)) (frequency_map self ! j))"
proof -
  have "concat (map (\<lambda>v. snd (snd v)) (concat (map (entry_view j) B)))
          = concat (map (\<lambda>e. rev (pm_sites e)) B)" for B
    by (induction B) (auto simp: entry_view_focal)
  then show ?thesis by (simp add: bucket_view_def)
qed

lemma order_view_focal:
  "concat (map (\<lambda>v. snd (snd v)) (concat (map (bucket_view self) js)))
     = concat (map (\<lambda>j. concat (map (\<lambda>e. rev (pm_sites e)) (frequency_map self ! j))) js)"
  by (induction js) (auto simp: bucket_view_focal)

lemma mset_concat_rev_entries:
  "mset (concat (map (\<lambda>e. rev (pm_sites e)) B)) = mset (concat (map pm_sites B))"
  by (induction B) auto

lemma mset_concat_map_rev: "mset (concat (map G (rev js))) = mset (concat (map G js))"
  by (induction js) auto

lemma concat_skip_low:
  assumes "\<forall>j<2. j < n \<longrightarrow> G j = []"
  shows "concat (map G [0 ..< n]) = concat (map G [2 ..< n])"
  using assms
proof (induction n)
  case 0
  then show ?case by simp
next
  case (Suc n)
  show ?case
  proof (cases "2 \<le> n")
    case True
    with Suc show ?thesis by simp
  next
    case False
    then have "n < 2" by simp
    with Suc.prems have "G n = []" by simp
    with Suc False show ?thesis by simp
  qed
qed

lemma finalise_focal_mset:
  assumes run: "ancestor_builder_finalise ok self = Inr self'"
    and sized: "\<forall>bucket\<in>set (frequency_map self). \<forall>e\<in>set bucket. entry_sized e"
    and len: "length (frequency_map self) = num_samples self + 1"
      "num_ancestors self \<le> length (descriptors self)"
    and low: "\<forall>k<2. k < length (frequency_map self) \<longrightarrow> frequency_map self ! k = []"
  shows "mset (all_focal_sites self') = mset (listed_sites self)"
proof -
  let ?G = "\<lambda>j. concat (map pm_sites (frequency_map self ! j))"
  have "mset (all_focal_sites self')
          = mset (concat (map (\<lambda>j. concat (map (\<lambda>e. rev (pm_sites e)) (frequency_map self ! j)))
               (finalise_order self)))"
    by (simp only: all_focal_sites_view finalise_effect(1) [OF run sized len] order_view_focal)
  also have "\<dots> = mset (concat (map (\<lambda>j. concat (map (\<lambda>e. rev (pm_sites e)) (frequency_map self ! j)))
               [2 ..< Suc (num_samples self)]))"
    unfolding finalise_order_def by (rule mset_concat_map_rev)
  also have "\<dots> = mset (concat (map ?G [2 ..< Suc (num_samples self)]))"
  proof -
    have "mset (concat (map (\<lambda>j. concat (map (\<lambda>e. rev (pm_sites e)) (frequency_map self ! j))) js))
          = mset (concat (map ?G js))" for js
      by (induction js) (auto simp: mset_concat_rev_entries)
    then show ?thesis .
  qed
  also have "\<dots> = mset (concat (map ?G [0 ..< Suc (num_samples self)]))"
    using concat_skip_low [of "Suc (num_samples self)" ?G] low len(1) by simp
  also have "\<dots> = mset (listed_sites self)"
  proof -
    have "map (\<lambda>bucket. concat (map pm_sites bucket))
            (map (\<lambda>j. frequency_map self ! j) [0 ..< length (frequency_map self)])
          = map (\<lambda>bucket. concat (map pm_sites bucket)) (frequency_map self)"
      by (simp only: map_nth)
    then have "map ?G [0 ..< Suc (num_samples self)]
                 = map (\<lambda>bucket. concat (map pm_sites bucket)) (frequency_map self)"
      using len(1) by (simp add: comp_def)
    then show ?thesis by (simp add: listed_sites_def)
  qed
  finally show ?thesis .
qed

lemma site_frequency_add_site:
  assumes inv: "builder_inv self"
    and run: "ancestor_builder_add_site self l f g = Inr self'"
    and k: "k < num_sites self"
  shows "site_frequency (sites self' ! k) = (if k = l then f else site_frequency (sites self ! k))"
proof -
  from inv have len: "length (sites self) = num_sites self" by (auto simp: builder_inv_def)
  from inv run show ?thesis
    by (cases rule: add_site_cases) (use len k in \<open>auto simp: nth_list_update\<close>)
qed

lemma site_frequency_add_sites:
  assumes "builder_inv self" "add_sites calls self = Inr self'" "distinct (map fst calls)"
    "k < num_sites self"
  shows "site_frequency (sites self' ! k) =
           (case map_of calls k of None \<Rightarrow> site_frequency (sites self ! k) | Some (f, g) \<Rightarrow> f)"
  using assms
proof (induction calls arbitrary: self)
  case Nil
  then show ?case by simp
next
  case (Cons c calls)
  obtain l f g where c: "c = (l, f, g)" by (cases c)
  from Cons.prems(2) c obtain self1 where
    s1: "ancestor_builder_add_site self l f g = Inr self1" "add_sites calls self1 = Inr self'"
    by (auto split: sum.splits)
  have k1: "k < num_sites self1" using add_site_frame(2) [OF s1(1)] Cons.prems(4) by simp
  from Cons.prems(3) c have d: "distinct (map fst calls)" "l \<notin> fst ` set calls" by auto
  have IH: "site_frequency (sites self' ! k) =
           (case map_of calls k of None \<Rightarrow> site_frequency (sites self1 ! k) | Some (f, g) \<Rightarrow> f)"
    by (rule Cons.IH [OF add_site_inv [OF Cons.prems(1) s1(1)] s1(2) d(1) k1])
  show ?case
  proof (cases "k = l")
    case True
    with d(2) have "map_of calls k = None" by (simp add: map_of_eq_None_iff)
    with IH True c site_frequency_add_site [OF Cons.prems(1) s1(1) Cons.prems(4)]
    show ?thesis by simp
  next
    case False
    with IH c site_frequency_add_site [OF Cons.prems(1) s1(1) Cons.prems(4)]
    show ?thesis by (simp split: option.splits)
  qed
qed

lemma older_calls_iff:
  assumes "distinct (map fst calls)"
  shows "(k \<in> set (older_calls calls)) = (\<exists>f g. map_of calls k = Some (f, g) \<and> 2 \<le> f)"
  using assms by (auto simp: older_calls_def image_iff)

lemma older_calls_distinct: "distinct (map fst calls) \<Longrightarrow> distinct (older_calls calls)"
  unfolding older_calls_def by (rule distinct_map_filter)

lemma add_site_entry_cases:
  assumes inv: "builder_inv self"
    and run: "ancestor_builder_add_site self l f g = Inr self'"
    and j: "j < length (frequency_map self)"
    and e': "e' \<in> set (frequency_map self' ! j)"
  obtains
    (old) "e' \<in> set (frequency_map self ! j)"
      "gstore self' ! pm_genotypes e' = gstore self ! pm_genotypes e'"
      "\<not> (j = f \<and> 2 \<le> f \<and> gstore self ! pm_genotypes e' = take (num_samples self) g)"
  | (pushed) e where "2 \<le> f" "j = f" "e \<in> set (frequency_map self ! f)" "e' = push_site l e"
      "gstore self ! pm_genotypes e = take (num_samples self) g" "gstore self' = gstore self"
  | (fresh) "2 \<le> f" "j = f" "pm_sites e' = [l]"
      "gstore self' ! pm_genotypes e' = take (num_samples self) g"
      "\<forall>e\<in>set (frequency_map self ! f). gstore self ! pm_genotypes e \<noteq> take (num_samples self) g"
proof -
  let ?ns = "num_samples self"
  let ?h = "\<lambda>e. gstore self ! pm_genotypes e"
  have jin: "frequency_map self ! j \<in> set (frequency_map self)" using j by simp
  have addr: "pm_genotypes e < length (gstore self)" if "e \<in> set (frequency_map self ! j)" for e
    using inv jin that by (auto simp: builder_inv_def entry_ok_def)
  have dist: "distinct (map ?h (frequency_map self ! j))"
    using inv jin by (auto simp: builder_inv_def)
  from inv run show thesis
  proof (cases rule: add_site_cases)
    case low
    with e' show ?thesis by (intro old) auto
  next
    case (hit i)
    let ?B = "frequency_map self ! f"
    show ?thesis
    proof (cases "j = f")
      case False
      with hit e' show ?thesis by (intro old) auto
    next
      case True
      with hit(8) e' j have "e' \<in> set (?B[i := push_site l (?B ! i)])" by simp
      then obtain k where k: "k < length ?B" "e' = ?B[i := push_site l (?B ! i)] ! k"
        by (auto simp: in_set_conv_nth)
      show ?thesis
      proof (cases "k = i")
        case True
        with k hit show ?thesis using \<open>j = f\<close>
          by (intro pushed [of "?B ! i"]) simp_all
      next
        case False
        with k have ek: "e' = ?B ! k" by simp
        have "(map ?h ?B ! k = map ?h ?B ! i) = (k = i)"
          using dist k(1) hit(5) \<open>j = f\<close> by (intro nth_eq_iff_index_eq) simp_all
        with False k(1) hit(5) have "?h (?B ! k) \<noteq> ?h (?B ! i)" by simp
        with ek hit k(1) \<open>j = f\<close> show ?thesis
          by (intro old) simp_all
      qed
    qed
  next
    case (miss i)
    let ?B = "frequency_map self ! f"
    let ?new = "\<lparr>pm_genotypes = length (gstore self), pm_num_samples = ?ns,
                pm_sites = [l], pm_num_sites = 1\<rparr>"
    have same: "gstore self' ! pm_genotypes e = ?h e" if "e \<in> set (frequency_map self ! j)" for e
      using addr [OF that] miss(9) by (simp add: nth_append)
    show ?thesis
    proof (cases "j = f")
      case False
      with miss e' same show ?thesis by (intro old) auto
    next
      case True
      have "set (take i ?B) \<union> set (drop i ?B) = set ?B"
        by (simp only: set_append [symmetric] append_take_drop_id)
      with miss(8) e' j True have "e' = ?new \<or> e' \<in> set ?B" by auto
      then show ?thesis
      proof
        assume "e' = ?new"
        with miss True show ?thesis by (intro fresh) simp_all
      next
        assume "e' \<in> set ?B"
        with miss(6) same True show ?thesis by (intro old) simp_all
      qed
    qed
  qed
qed

lemma add_site_entry_kept:
  assumes inv: "builder_inv self"
    and run: "ancestor_builder_add_site self l f g = Inr self'"
    and j: "j < length (frequency_map self)"
    and e: "e \<in> set (frequency_map self ! j)"
  shows "\<exists>e'\<in>set (frequency_map self' ! j).
           gstore self' ! pm_genotypes e' = gstore self ! pm_genotypes e"
proof -
  have jin: "frequency_map self ! j \<in> set (frequency_map self)" using j by simp
  have addr: "pm_genotypes e < length (gstore self)"
    using inv jin e by (auto simp: builder_inv_def entry_ok_def)
  from inv run show ?thesis
  proof (cases rule: add_site_cases)
    case low
    with e show ?thesis by auto
  next
    case (hit i)
    let ?B = "frequency_map self ! f"
    show ?thesis
    proof (cases "j = f")
      case False
      with hit e show ?thesis by auto
    next
      case True
      from e obtain k where k: "k < length ?B" "?B ! k = e"
        unfolding True by (auto simp: in_set_conv_nth)
      have a: "(?B[i := push_site l (?B ! i)]) ! k \<in> set (frequency_map self' ! j)"
        using k(1) hit(8) True j by simp
      have "pm_genotypes ((?B[i := push_site l (?B ! i)]) ! k) = pm_genotypes e"
        using k hit(5) by (cases "k = i") simp_all
      then show ?thesis using hit(9) by (intro bexI [OF _ a]) simp
    qed
  next
    case (miss i)
    let ?B = "frequency_map self ! f"
    have ein: "e \<in> set (frequency_map self' ! j)"
    proof (cases "j = f")
      case False
      with miss e show ?thesis by auto
    next
      case True
      have "set (take i ?B) \<union> set (drop i ?B) = set ?B"
        by (simp only: set_append [symmetric] append_take_drop_id)
      with e True miss(8) j show ?thesis by auto
    qed
    show ?thesis using miss(9) addr by (intro bexI [OF _ ein]) (simp add: nth_append)
  qed
qed

lemma pattern_sites_snoc:
  "pattern_sites ns (calls @ [(l, f, g)]) j c =
     pattern_sites ns calls j c @ (if f = j \<and> take ns g = c then [l] else [])"
  by (simp add: pattern_sites_def)

lemma insertion_inv_add_site:
  assumes inv: "builder_inv self"
    and ins: "insertion_inv calls self"
    and run: "ancestor_builder_add_site self l f g = Inr self'"
  shows "insertion_inv (calls @ [(l, f, g)]) self'"
proof -
  let ?ns = "num_samples self"
  note fr = add_site_frame [OF run]
  from inv have len: "length (frequency_map self) = ?ns + 1" by (auto simp: builder_inv_def)
  from run have f: "f < length (frequency_map self)"
    by (auto simp: ancestor_builder_add_site_def split: if_splits)
  from ins have A: "\<And>j e. j < length (frequency_map self) \<Longrightarrow> e \<in> set (frequency_map self ! j) \<Longrightarrow>
        2 \<le> j \<and> rev (pm_sites e) = pattern_sites ?ns calls j (gstore self ! pm_genotypes e)"
    and B: "\<And>l f g. (l, f, g) \<in> set calls \<Longrightarrow> 2 \<le> f \<Longrightarrow> f < length (frequency_map self) \<and>
        (\<exists>e\<in>set (frequency_map self ! f). gstore self ! pm_genotypes e = take ?ns g)"
    by (auto simp: insertion_inv_def)
  have A': "2 \<le> j \<and> rev (pm_sites e') =
              pattern_sites ?ns (calls @ [(l, f, g)]) j (gstore self' ! pm_genotypes e')"
    if j: "j < length (frequency_map self)" and e': "e' \<in> set (frequency_map self' ! j)" for j e'
    using inv run j e'
  proof (cases rule: add_site_entry_cases)
    case old
    with A [OF j old(1)] show ?thesis by (auto simp: pattern_sites_snoc)
  next
    case (pushed e)
    with A [of f e] f show ?thesis by (simp add: pattern_sites_snoc)
  next
    case fresh
    have "pattern_sites ?ns calls f (take ?ns g) = []"
    proof -
      have "\<not> (f2 = f \<and> take ?ns g2 = take ?ns g)" if "(l2, f2, g2) \<in> set calls" for l2 f2 g2
        using B [OF that] fresh(1,5) by auto
      then show ?thesis by (auto simp: pattern_sites_def filter_empty_conv)
    qed
    with fresh show ?thesis by (simp add: pattern_sites_snoc)
  qed
  have B': "f2 < length (frequency_map self') \<and>
        (\<exists>e\<in>set (frequency_map self' ! f2). gstore self' ! pm_genotypes e = take ?ns g2)"
    if c: "(l2, f2, g2) \<in> set (calls @ [(l, f, g)])" and f2: "2 \<le> f2" for l2 f2 g2
  proof (cases "(l2, f2, g2) \<in> set calls")
    case True
    from B [OF True f2] obtain e where e: "f2 < length (frequency_map self)"
      "e \<in> set (frequency_map self ! f2)" "gstore self ! pm_genotypes e = take ?ns g2"
      by auto
    from add_site_entry_kept [OF inv run e(1,2)] e(1,3) fr(7) show ?thesis by simp
  next
    case False
    with c have eq: "l2 = l" "f2 = f" "g2 = g" by auto
    from site_pattern_established [OF inv run] f2 eq
    have "site_pattern self' l f (take ?ns g)" by simp
    then show ?thesis using eq f fr(7) by (auto simp: site_pattern_def)
  qed
  have P1: "\<forall>j<length (frequency_map self'). \<forall>e\<in>set (frequency_map self' ! j).
        2 \<le> j \<and>
        rev (pm_sites e) = pattern_sites (num_samples self') (calls @ [(l, f, g)]) j
                             (gstore self' ! pm_genotypes e)"
    using A' fr(1,7) by simp
  have P2: "\<forall>x\<in>set (calls @ [(l, f, g)]). case x of (l, f, g) \<Rightarrow> 2 \<le> f \<longrightarrow>
        f < length (frequency_map self') \<and>
        (\<exists>e\<in>set (frequency_map self' ! f).
           gstore self' ! pm_genotypes e = take (num_samples self') g)"
  proof
    fix x assume x: "x \<in> set (calls @ [(l, f, g)])"
    obtain l2 f2 g2 where x2: "x = (l2, f2, g2)" by (cases x)
    from B' [of l2 f2 g2] x x2 fr(1)
    show "case x of (l, f, g) \<Rightarrow> 2 \<le> f \<longrightarrow> f < length (frequency_map self') \<and>
            (\<exists>e\<in>set (frequency_map self' ! f).
               gstore self' ! pm_genotypes e = take (num_samples self') g)"
      by simp
  qed
  show ?thesis
    unfolding insertion_inv_def by (rule conjI [OF P1 P2])
qed

lemma insertion_inv_add_sites:
  assumes "builder_inv self" "insertion_inv pre self" "add_sites calls self = Inr self'"
  shows "insertion_inv (pre @ calls) self'"
  using assms
proof (induction calls arbitrary: self pre)
  case Nil
  then show ?case by simp
next
  case (Cons c calls)
  obtain l f g where c: "c = (l, f, g)" by (cases c)
  from Cons.prems(3) c obtain self1 where
    s1: "ancestor_builder_add_site self l f g = Inr self1" "add_sites calls self1 = Inr self'"
    by (auto split: sum.splits)
  from Cons.IH [OF add_site_inv [OF Cons.prems(1) s1(1)]
      insertion_inv_add_site [OF Cons.prems(1,2) s1(1)] s1(2)] c
  show ?case by simp
qed

lemma length_concat_member: "xs \<in> set xss \<Longrightarrow> length xs \<le> length (concat xss)"
  by (induction xss) auto

lemma listed_sites_bound:
  assumes "bucket \<in> set (frequency_map self)" "e \<in> set bucket"
  shows "length (pm_sites e) \<le> length (listed_sites self)"
proof -
  have "length (pm_sites e) \<le> length (concat (map pm_sites bucket))"
    using assms(2) by (intro length_concat_member) simp
  also have "\<dots> \<le> length (listed_sites self)"
    unfolding listed_sites_def using assms(1) by (intro length_concat_member) simp
  finally show ?thesis .
qed

lemma reachable_facts:
  assumes alloc: "ancestor_builder_alloc mem ns m fl = Inr b0"
    and run: "add_sites calls b0 = Inr b"
  shows "builder_inv b" "insertion_inv calls b"
    "mset (listed_sites b) = mset (older_calls calls)"
    "\<forall>k<2. k < length (frequency_map b) \<longrightarrow> frequency_map b ! k = []"
    "num_samples b = ns" "num_sites b = m" "focal_store (allocator b) = []"
    "num_ancestors b = 0"
proof -
  note a = alloc_fields [OF alloc]
  have inv0: "builder_inv b0" by (rule alloc_inv [OF alloc])
  show "builder_inv b" by (rule add_sites_inv [OF inv0 run])
  have e0: "frequency_map b0 ! j = []" if "j < length (frequency_map b0)" for j
    using that unfolding a(4) by (simp only: length_replicate nth_replicate)
  have "insertion_inv [] b0" by (simp add: insertion_inv_def e0)
  from insertion_inv_add_sites [OF inv0 this run] show "insertion_inv calls b" by simp
  have "listed_sites b0 = []" using a by (simp add: listed_sites_def)
  with listed_sites_add_sites [OF inv0 run] show "mset (listed_sites b) = mset (older_calls calls)"
    by simp
  have lenb: "length (frequency_map b) = length (frequency_map b0)"
    using add_sites_inv [OF inv0 run] inv0 add_sites_frame [OF run] by (simp add: builder_inv_def)
  show "\<forall>k<2. k < length (frequency_map b) \<longrightarrow> frequency_map b ! k = []"
  proof (intro allI impI)
    fix k :: nat assume k: "k < 2" "k < length (frequency_map b)"
    have "frequency_map b0 ! k = []" using e0 k(2) lenb by simp
    from low_buckets_add_sites [OF inv0 run k(1) this] show "frequency_map b ! k = []" .
  qed
  show "num_samples b = ns" "num_sites b = m" "focal_store (allocator b) = []" "num_ancestors b = 0"
    using add_sites_frame [OF run] a by simp_all
qed

lemma reachable_sized:
  assumes alloc: "ancestor_builder_alloc mem ns m fl = Inr b0"
    and run: "add_sites calls b0 = Inr b"
    and bound: "length calls < 2 ^ 64"
  shows "\<forall>bucket\<in>set (frequency_map b). \<forall>e\<in>set bucket. entry_sized e"
proof (intro ballI)
  fix bucket e assume be: "bucket \<in> set (frequency_map b)" "e \<in> set bucket"
  note r = reachable_facts [OF alloc run]
  from r(1) be have ok: "entry_ok b e" by (auto simp: builder_inv_def)
  have "length (pm_sites e) \<le> length (listed_sites b)" by (rule listed_sites_bound [OF be])
  also have "\<dots> = length (older_calls calls)"
    using r(3) by (metis size_mset)
  also have "\<dots> \<le> length calls" by (simp add: older_calls_def)
  finally have "length (pm_sites e) < 2 ^ 64" using bound by simp
  with ok show "entry_sized e" by (simp add: entry_sized_def entry_ok_def)
qed

lemma finalised_facts:
  assumes alloc: "ancestor_builder_alloc mem ns m fl = Inr b0"
    and run: "add_sites calls b0 = Inr b"
    and fin: "ancestor_builder_finalise ok b = Inr b'"
    and bound: "length calls < 2 ^ 64"
  shows "emitted_view b' = concat (map (bucket_view b) (finalise_order b))"
    and "emitted_inv b'" and "finalise_frame b b'"
    and "focal_store (allocator b') =
           map (\<lambda>e. rev (pm_sites e)) (concat (map (\<lambda>j. frequency_map b ! j) (finalise_order b)))"
    and "mset (all_focal_sites b') = mset (older_calls calls)"
proof -
  note r = reachable_facts [OF alloc run]
  note sz = reachable_sized [OF alloc run bound]
  from r(1) have len: "length (frequency_map b) = num_samples b + 1"
    by (auto simp: builder_inv_def)
  have na: "num_ancestors b \<le> length (descriptors b)" using r(8) by simp
  note eff = finalise_effect [OF fin sz len na]
  show "emitted_view b' = concat (map (bucket_view b) (finalise_order b))" by (rule eff(1))
  show "emitted_inv b'" by (rule eff(2))
  show "finalise_frame b b'" by (rule eff(3))
  show "focal_store (allocator b') =
           map (\<lambda>e. rev (pm_sites e)) (concat (map (\<lambda>j. frequency_map b ! j) (finalise_order b)))"
    using eff(4) r(7) by simp
  show "mset (all_focal_sites b') = mset (older_calls calls)"
    using finalise_focal_mset [OF fin sz len na r(4)] r(3) by simp
qed

lemma calls_in_range:
  "builder_inv self \<Longrightarrow> add_sites calls self = Inr self' \<Longrightarrow>
     \<forall>l\<in>fst ` set calls. l < num_sites self"
proof (induction calls arbitrary: self)
  case Nil
  then show ?case by simp
next
  case (Cons c calls)
  obtain l f g where c: "c = (l, f, g)" by (cases c)
  from Cons.prems(2) c obtain self1 where
    s1: "ancestor_builder_add_site self l f g = Inr self1" "add_sites calls self1 = Inr self'"
    by (auto split: sum.splits)
  from s1(1) Cons.prems(1) have "l < num_sites self"
    by (auto simp: ancestor_builder_add_site_def builder_inv_def split: if_splits)
  moreover from Cons.IH [OF add_site_inv [OF Cons.prems(1) s1(1)] s1(2)] add_site_frame(2) [OF s1(1)]
  have "\<forall>l\<in>fst ` set calls. l < num_sites self" by simp
  ultimately show ?case using c by simp
qed

text \<open>
  Claim C2. After alloc, calls of add site with pairwise different sites, and finalise:
  every site added with a frequency of at least 2 occurs exactly once in the concatenation
  of the focal sites of the emitted descriptors; a site added with a frequency of at most 1,
  or never added, does not occur. The same holds in terms of the frequency the builder
  stores for the site, and every focal site is a site of the builder.
\<close>

theorem focal_sites_exactly_once:
  assumes alloc: "ancestor_builder_alloc mem ns m fl = Inr b0"
    and run: "add_sites calls b0 = Inr b"
    and once: "distinct (map fst calls)"
    and fin: "ancestor_builder_finalise ok b = Inr b'"
    and size: "m < 2 ^ 64"
  shows "(\<forall>(l, f, g)\<in>set calls.
            count_list (all_focal_sites b') l = (if 2 \<le> f then 1 else 0)) \<and>
         (\<forall>l. l \<notin> fst ` set calls \<longrightarrow> count_list (all_focal_sites b') l = 0) \<and>
         (\<forall>l<num_sites b'. count_list (all_focal_sites b') l =
            (if 2 \<le> site_frequency (sites b' ! l) then 1 else 0)) \<and>
         (\<forall>l\<in>set (all_focal_sites b'). l < num_sites b')"
proof -
  note a = alloc_fields [OF alloc]
  have inv0: "builder_inv b0" by (rule alloc_inv [OF alloc])
  note r = reachable_facts [OF alloc run]
  have range: "\<forall>l\<in>fst ` set calls. l < m"
    using calls_in_range [OF inv0 run] a(2) by simp
  have "length calls = card (fst ` set calls)"
    using once by (metis distinct_card length_map set_map)
  also have "\<dots> \<le> card {..<m}"
    using range by (intro card_mono) auto
  finally have bound: "length calls < 2 ^ 64" using size by simp
  note f = finalised_facts [OF alloc run fin bound]
  have frame: "sites b' = sites b" "num_sites b' = m"
    using f(3) r(6) by (simp_all add: finalise_frame_def)
  have d: "distinct (older_calls calls)" by (rule older_calls_distinct [OF once])
  have cnt: "count_list (all_focal_sites b') l = (if l \<in> set (older_calls calls) then 1 else 0)" for l
  proof -
    have "count_list (all_focal_sites b') l = count (mset (older_calls calls)) l"
      using f(5) by (metis count_mset)
    with d show ?thesis by (simp add: distinct_count_atmost_1)
  qed
  have added: "count_list (all_focal_sites b') l = (if 2 \<le> f then 1 else 0)"
    if "(l, f, g) \<in> set calls" for l f g
  proof -
    from that once have "map_of calls l = Some (f, g)" by (rule map_of_is_SomeI [rotated])
    with older_calls_iff [OF once, of l] cnt [of l] show ?thesis by simp
  qed
  have absent: "count_list (all_focal_sites b') l = 0" if "l \<notin> fst ` set calls" for l
  proof -
    from that have "l \<notin> set (older_calls calls)" by (auto simp: older_calls_def)
    with cnt [of l] show ?thesis by simp
  qed
  have freq: "(2 \<le> site_frequency (sites b' ! l)) = (l \<in> set (older_calls calls))" if "l < m" for l
  proof -
    have "site_frequency (sites b ! l) =
            (case map_of calls l of None \<Rightarrow> site_frequency (sites b0 ! l) | Some (f, g) \<Rightarrow> f)"
      using that a(2) by (intro site_frequency_add_sites [OF inv0 run once]) simp
    moreover have "site_frequency (sites b0 ! l) = 0" using a(3) that by simp
    ultimately show ?thesis
      using older_calls_iff [OF once, of l] frame(1) by (auto split: option.splits)
  qed
  have sub: "l < num_sites b'" if "l \<in> set (all_focal_sites b')" for l
  proof -
    from that f(5) have "l \<in> set (older_calls calls)" by (metis set_mset_mset)
    then have "l \<in> fst ` set calls" by (auto simp: older_calls_def)
    with range frame(2) show ?thesis by auto
  qed
  have P1: "\<forall>(l, f, g)\<in>set calls. count_list (all_focal_sites b') l = (if 2 \<le> f then 1 else 0)"
    using added by blast
  have P2: "\<forall>l. l \<notin> fst ` set calls \<longrightarrow> count_list (all_focal_sites b') l = 0"
    using absent by blast
  have P3: "\<forall>l<num_sites b'. count_list (all_focal_sites b') l =
            (if 2 \<le> site_frequency (sites b' ! l) then 1 else 0)"
    using cnt freq frame(2) by simp
  have P4: "\<forall>l\<in>set (all_focal_sites b'). l < num_sites b'" using sub by blast
  from P1 P2 P3 P4 show ?thesis by (intro conjI)
qed

lemmas finalise_eval =
  ancestor_builder_finalise_def finalise_entry_def block_allocator_get_sites_def
  block_allocator_get_def size_sub_def ancestor_builder_get_consistent_samples_def
  site_genotypes_buf_def Let_def replicate_numeral_eval list_update_numeral_eval

lemma example_built:
  "ancestor_builder_alloc [] 5 5 0 = Inr (projr (ancestor_builder_alloc [] 5 5 0))"
  "add_sites example_calls (projr (ancestor_builder_alloc [] 5 5 0)) = Inr example_builder"
  by (simp_all add: example_calls_def example_builder_def builder_eval
        replicate_numeral_eval list_update_numeral_eval)

lemma example_finalise:
  "ancestor_builder_finalise True example_builder = Inr example_finalised"
  by (simp add: finalise_eval example_builder_def example_finalised_def)

lemma unsorted_built:
  "ancestor_builder_alloc [] 3 2 0 = Inr (projr (ancestor_builder_alloc [] 3 2 0))"
  "add_sites unsorted_calls (projr (ancestor_builder_alloc [] 3 2 0)) = Inr unsorted_builder"
  by (simp_all add: unsorted_calls_def unsorted_builder_def builder_eval
        replicate_numeral_eval list_update_numeral_eval)

lemma unsorted_finalise:
  "ancestor_builder_finalise True unsorted_builder = Inr unsorted_finalised"
  by (simp add: finalise_eval unsorted_builder_def unsorted_finalised_def)

lemma example_all_focal_sites: "all_focal_sites example_finalised = [3, 4, 1, 2, 0]"
  by (simp add: all_focal_sites_def emitted_def descriptor_focal_sites_def
        example_finalised_def example_builder_def)

theorem focal_sites_exactly_once_witness:
  "distinct (map fst example_calls) \<and>
   (3, 4, [0, 1, 1, 1, 1]) \<in> set example_calls \<and>
   count_list (all_focal_sites example_finalised) 3 = 1 \<and>
   site_frequency (sites example_finalised ! 3) = 4 \<and>
   7 \<notin> fst ` set example_calls \<and>
   count_list (all_focal_sites example_finalised) 7 = 0"
proof -
  have h: "distinct (map fst example_calls)" by (simp add: example_calls_def)
  have s: "(5::nat) < 2 ^ 64" by simp
  have c: "(3, 4, [0, 1, 1, 1, 1]) \<in> set example_calls" by (simp add: example_calls_def)
  have n: "7 \<notin> fst ` set example_calls" by (simp add: example_calls_def)
  have f: "site_frequency (sites example_finalised ! 3) = 4"
    by (simp add: example_finalised_def example_builder_def)
  note t = focal_sites_exactly_once [OF example_built(1) example_built(2) h example_finalise s]
  from t [THEN conjunct1, rule_format, OF c] have c3: "count_list (all_focal_sites example_finalised) 3 = 1"
    by simp
  from t [THEN conjunct2, THEN conjunct1, rule_format, OF n]
  have c7: "count_list (all_focal_sites example_finalised) 7 = 0" .
  from h c c3 f n c7 show ?thesis by (intro conjI)
qed

lemma descriptor_view_fun:
  "descriptor_view self = (\<lambda>d. (d_frequency d, d_num_focal_sites d, descriptor_focal_sites self d))"
  by (rule ext) (simp add: descriptor_view_def)

lemma entry_view_fun: "entry_view j = (\<lambda>e. map (\<lambda>s. (j, 1, [s])) (rev (pm_sites e)))"
  by (rule ext) (simp add: entry_view_def)

lemma bucket_view_fun:
  "bucket_view self = (\<lambda>j. concat (map (\<lambda>e. map (\<lambda>s. (j, 1, [s])) (rev (pm_sites e)))
                                       (frequency_map self ! j)))"
  by (rule ext) (simp add: bucket_view_def entry_view_fun)

text \<open>
  Claim C3. After alloc, any successful calls of add site, and finalise: every emitted
  descriptor has \<open>num_focal_sites = 1\<close>, and the emitted descriptors are, bucket by
  bucket from frequency \<open>num_samples\<close> down to 2 and element by element, one descriptor
  of the bucket's frequency for each site of the element's list; an element counts as
  many sites as its list holds, so an element shared by \<open>k\<close> sites yields \<open>k\<close>
  descriptors.
\<close>

theorem one_focal_site_per_descriptor:
  assumes alloc: "ancestor_builder_alloc mem ns m fl = Inr b0"
    and run: "add_sites calls b0 = Inr b"
    and fin: "ancestor_builder_finalise ok b = Inr b'"
    and bound: "length calls < 2 ^ 64"
  shows "(\<forall>d\<in>set (emitted b'). d_num_focal_sites d = 1) \<and>
         map (\<lambda>d. (d_frequency d, d_num_focal_sites d, descriptor_focal_sites b' d)) (emitted b')
           = concat (map (\<lambda>j. concat (map (\<lambda>e. map (\<lambda>s. (j, 1, [s])) (rev (pm_sites e)))
                                           (frequency_map b ! j)))
                      (rev [2 ..< Suc ns])) \<and>
         (\<forall>j\<le>ns. \<forall>e\<in>set (frequency_map b ! j). pm_num_sites e = length (pm_sites e))"
proof -
  note r = reachable_facts [OF alloc run]
  note f = finalised_facts [OF alloc run fin bound]
  have view: "map (\<lambda>d. (d_frequency d, d_num_focal_sites d, descriptor_focal_sites b' d)) (emitted b')
           = concat (map (\<lambda>j. concat (map (\<lambda>e. map (\<lambda>s. (j, 1, [s])) (rev (pm_sites e)))
                                           (frequency_map b ! j)))
                      (rev [2 ..< Suc ns]))"
    using f(1) r(5)
    by (simp add: emitted_view_def descriptor_view_fun bucket_view_fun
          finalise_order_def del: upt_Suc)
  have one: "d_num_focal_sites d = 1" if "d \<in> set (emitted b')" for d
  proof -
    from that have "(d_frequency d, d_num_focal_sites d, descriptor_focal_sites b' d)
        \<in> set (map (\<lambda>d. (d_frequency d, d_num_focal_sites d, descriptor_focal_sites b' d)) (emitted b'))"
      by simp
    then show ?thesis unfolding view by auto
  qed
  have cnt: "pm_num_sites e = length (pm_sites e)" if "j \<le> ns" "e \<in> set (frequency_map b ! j)" for j e
  proof -
    from r(1) have len: "length (frequency_map b) = num_samples b + 1"
      by (auto simp: builder_inv_def)
    with that r(5) have "frequency_map b ! j \<in> set (frequency_map b)" by simp
    with r(1) that(2) show ?thesis by (auto simp: builder_inv_def entry_ok_def)
  qed
  from one view cnt show ?thesis by blast
qed

theorem one_focal_site_per_descriptor_witness:
  "length example_calls < 2 ^ 64 \<and>
   map (\<lambda>d. (d_frequency d, d_num_focal_sites d, descriptor_focal_sites example_finalised d))
     (emitted example_finalised)
     = [(4, 1, [3]), (4, 1, [4]), (4, 1, [1]), (4, 1, [2]), (3, 1, [0])]"
proof -
  have h: "length example_calls < 2 ^ 64" by (simp add: example_calls_def)
  from one_focal_site_per_descriptor [OF example_built(1) example_built(2) example_finalise h,
      THEN conjunct2, THEN conjunct1] h
  show ?thesis by (simp add: example_builder_def upt_rec)
qed

lemma sorted_wrt_concat_blocks:
  assumes "sorted_wrt (\<lambda>x y. y \<le> x) js" "\<And>j x. j \<in> set js \<Longrightarrow> x \<in> set (F j) \<Longrightarrow> x = j"
  shows "sorted_wrt (\<lambda>x y. (y::nat) \<le> x) (concat (map F js))"
  using assms
proof (induction js)
  case Nil
  then show ?case by simp
next
  case (Cons j js)
  have blk: "sorted_wrt (\<lambda>x y. y \<le> x) (F j)"
  proof -
    have eq: "F j ! i = j" if "i < length (F j)" for i
      using Cons.prems(2) [of j "F j ! i"] that by simp
    show ?thesis by (simp add: sorted_wrt_iff_nth_less eq)
  qed
  have rest: "sorted_wrt (\<lambda>x y. y \<le> x) (concat (map F js))"
    using Cons by simp
  have cross: "y \<le> x" if "x \<in> set (F j)" "y \<in> set (concat (map F js))" for x y
  proof -
    from that(2) obtain j' where j': "j' \<in> set js" "y \<in> set (F j')" by auto
    with Cons.prems that(1) have "x = j" "y = j'" "j' \<le> j" by auto
    then show ?thesis by simp
  qed
  from blk rest cross show ?case by (simp add: sorted_wrt_append)
qed

text \<open>
  Claim C8, as amended. The frequencies of the emitted descriptors never increase along
  the array: for \<open>i < j < num_ancestors\<close>, the frequency of descriptor \<open>j\<close> is at most
  that of descriptor \<open>i\<close>. They do not decrease strictly: two sites of one frequency give
  two descriptors of that frequency, as the counterexample shows.
\<close>

theorem descriptors_frequency_non_increasing:
  assumes alloc: "ancestor_builder_alloc mem ns m fl = Inr b0"
    and run: "add_sites calls b0 = Inr b"
    and fin: "ancestor_builder_finalise ok b = Inr b'"
    and bound: "length calls < 2 ^ 64"
  shows "\<forall>i j. i < j \<and> j < num_ancestors b' \<longrightarrow>
           d_frequency (descriptors b' ! j) \<le> d_frequency (descriptors b' ! i)"
proof -
  note f = finalised_facts [OF alloc run fin bound]
  let ?F = "\<lambda>j. map fst (bucket_view b j)"
  have fr: "map d_frequency (emitted b') = concat (map ?F (finalise_order b))"
  proof -
    have "map d_frequency (emitted b') = map fst (emitted_view b')"
      by (simp add: emitted_view_def descriptor_view_def comp_def)
    also have "\<dots> = concat (map ?F (finalise_order b))"
      unfolding f(1) by (simp add: map_concat comp_def)
    finally show ?thesis .
  qed
  have "sorted_wrt (\<lambda>x y. y \<le> x) (finalise_order b)"
    unfolding finalise_order_def by (simp add: sorted_wrt_rev del: upt_Suc)
  moreover have "x = j" if "x \<in> set (?F j)" for j x
    using that by (auto simp: bucket_view_def entry_view_def)
  ultimately have "sorted_wrt (\<lambda>x y. y \<le> x) (map d_frequency (emitted b'))"
    unfolding fr by (intro sorted_wrt_concat_blocks) auto
  then have s: "\<And>i j. i < j \<Longrightarrow> j < length (emitted b') \<Longrightarrow>
      d_frequency (emitted b' ! j) \<le> d_frequency (emitted b' ! i)"
    by (auto simp: sorted_wrt_iff_nth_less)
  from f(2) have le: "num_ancestors b' \<le> length (descriptors b')"
    by (simp add: emitted_inv_def)
  then have len: "length (emitted b') = num_ancestors b'"
    by (simp add: emitted_def)
  show ?thesis
  proof (intro allI impI)
    fix i j assume ij: "i < j \<and> j < num_ancestors b'"
    with s [of i j] len le show "d_frequency (descriptors b' ! j) \<le> d_frequency (descriptors b' ! i)"
      by (simp add: emitted_def)
  qed
qed

theorem descriptors_frequency_non_increasing_witness:
  "length example_calls < 2 ^ 64 \<and> (3::nat) < 4 \<and> 4 < num_ancestors example_finalised \<and>
   d_frequency (descriptors example_finalised ! 4) \<le> d_frequency (descriptors example_finalised ! 3)"
proof -
  have h: "length example_calls < 2 ^ 64" by (simp add: example_calls_def)
  have n: "(3::nat) < 4 \<and> 4 < num_ancestors example_finalised"
    by (simp add: example_finalised_def)
  from descriptors_frequency_non_increasing
         [OF example_built(1) example_built(2) example_finalise h, rule_format, OF n] h n
  show ?thesis by simp
qed

theorem descriptors_frequency_strict_counterexample:
  "add_sites example_calls (projr (ancestor_builder_alloc [] 5 5 0)) = Inr example_builder \<and>
   ancestor_builder_finalise True example_builder = Inr example_finalised \<and>
   (0::nat) < 1 \<and> 1 < num_ancestors example_finalised \<and>
   \<not> d_frequency (descriptors example_finalised ! 0) > d_frequency (descriptors example_finalised ! 1)"
  using example_built(2) example_finalise by (simp add: example_finalised_def)

text \<open>
  Claim C9, as amended. finalise allocates one array for each map element, in the order
  of traversal, holding the element's list reversed; the reversed list is the sequence of
  the sites added with the element's frequency and alleles, in the order of the calls.
  So the array is ascending when the sites are added in ascending order, and not
  otherwise, as the counterexample shows.
\<close>

theorem focal_arrays_in_insertion_order:
  assumes alloc: "ancestor_builder_alloc mem ns m fl = Inr b0"
    and run: "add_sites calls b0 = Inr b"
    and fin: "ancestor_builder_finalise ok b = Inr b'"
    and bound: "length calls < 2 ^ 64"
  shows "focal_store (allocator b') =
           map (\<lambda>e. rev (pm_sites e)) (concat (map (\<lambda>j. frequency_map b ! j) (rev [2 ..< Suc ns]))) \<and>
         (\<forall>j\<le>ns. \<forall>e\<in>set (frequency_map b ! j).
            rev (pm_sites e) =
              map fst (filter (\<lambda>(l, f, g). f = j \<and> take ns g = gstore b ! pm_genotypes e) calls)) \<and>
         (sorted_wrt (<) (map fst calls) \<longrightarrow>
            (\<forall>arr\<in>set (focal_store (allocator b')). sorted_wrt (<) arr))"
proof -
  note r = reachable_facts [OF alloc run]
  note f = finalised_facts [OF alloc run fin bound]
  from r(1) have len: "length (frequency_map b) = ns + 1"
    using r(5) by (auto simp: builder_inv_def)
  have store: "focal_store (allocator b') =
           map (\<lambda>e. rev (pm_sites e)) (concat (map (\<lambda>j. frequency_map b ! j) (rev [2 ..< Suc ns])))"
    using f(4) r(5) by (simp add: finalise_order_def del: upt_Suc)
  have ins: "rev (pm_sites e) =
      map fst (filter (\<lambda>(l, f, g). f = j \<and> take ns g = gstore b ! pm_genotypes e) calls)"
    if "j \<le> ns" "e \<in> set (frequency_map b ! j)" for j e
    using r(2) that len r(5) by (simp add: insertion_inv_def pattern_sites_def)
  have srt: "sorted_wrt (<) arr"
    if s: "sorted_wrt (<) (map fst calls)" and arr: "arr \<in> set (focal_store (allocator b'))" for arr
  proof -
    from arr obtain j e where j: "j \<in> set (rev [2 ..< Suc ns])"
      and je': "e \<in> set (frequency_map b ! j)" "arr = rev (pm_sites e)"
      unfolding store by (auto simp del: upt_Suc)
    from j have "j \<le> ns" by (simp del: upt_Suc)
    note je = this je'
    have "sorted_wrt (<) (map fst (filter P calls))" for P :: "site_id_t \<times> nat \<times> allele_t list \<Rightarrow> bool"
      using s by (simp add: sorted_wrt_map sorted_wrt_filter)
    with ins [OF je(1,2)] je(3) show ?thesis by simp
  qed
  from store ins srt show ?thesis by blast
qed

theorem focal_arrays_in_insertion_order_witness:
  "length example_calls < 2 ^ 64 \<and> sorted_wrt (<) (map fst example_calls) \<and>
   focal_store (allocator example_finalised) = [[3, 4], [1, 2], [0]] \<and>
   sorted_wrt (<) (focal_store (allocator example_finalised) ! 0)"
proof -
  have h: "length example_calls < 2 ^ 64" by (simp add: example_calls_def)
  have s: "sorted_wrt (<) (map fst example_calls)" by (simp add: example_calls_def)
  have st: "focal_store (allocator example_finalised) = [[3, 4], [1, 2], [0]]"
    by (simp add: example_finalised_def)
  have m: "focal_store (allocator example_finalised) ! 0 \<in> set (focal_store (allocator example_finalised))"
    by (simp add: st)
  from focal_arrays_in_insertion_order [OF example_built(1) example_built(2) example_finalise h,
      THEN conjunct2, THEN conjunct2, rule_format, OF s m] h s st
  show ?thesis by blast
qed

theorem focal_arrays_ascending_counterexample:
  "add_sites unsorted_calls (projr (ancestor_builder_alloc [] 3 2 0)) = Inr unsorted_builder \<and>
   ancestor_builder_finalise True unsorted_builder = Inr unsorted_finalised \<and>
   focal_store (allocator unsorted_finalised) = [[1, 0]] \<and>
   descriptor_focal_sites unsorted_finalised (descriptors unsorted_finalised ! 0) = [1] \<and>
   descriptor_focal_sites unsorted_finalised (descriptors unsorted_finalised ! 1) = [0] \<and>
   \<not> sorted [1, 0 :: site_id_t]"
  using unsorted_built(2) unsorted_finalise
  by (simp add: unsorted_finalised_def descriptor_focal_sites_def)

section \<open>Properties of make ancestor\<close>

lemma compute_consensus_cases: "compute_consensus g S = 0 \<or> compute_consensus g S = 1"
  by (simp add: compute_consensus_def Let_def)

lemma older_sites_loop_written:
  assumes "older_sites_loop self m older st = Inr out"
  shows "\<exists>k\<le>length older.
           os_j out = os_j st + k \<and>
           os_last_site out = last (os_last_site st # take k older) \<and>
           length (os_ancestor out) = length (os_ancestor st) \<and>
           (\<forall>i. i \<notin> set (take k older) \<longrightarrow> os_ancestor out ! i = os_ancestor st ! i) \<and>
           (\<forall>i\<in>set (take k older). os_ancestor out ! i = 0 \<or> os_ancestor out ! i = 1)"
  using assms
proof (induction older arbitrary: st)
  case Nil
  then show ?case by simp
next
  case (Cons l ls)
  from Cons.prems obtain g where g: "site_genotypes_buf self l = Some g"
    by (auto split: option.splits)
  let ?c = "compute_consensus g (os_sample_set st)"
  let ?S = "repack (mark_removed (os_disagree st) g ?c (os_sample_set st))"
  show ?case
  proof (cases "length ?S \<le> m")
    case True
    with Cons.prems g have "out = st\<lparr>os_sample_set := ?S\<rparr>" by (simp add: Let_def)
    then show ?thesis by (intro exI [of _ 0]) simp
  next
    case False
    let ?st' = "st\<lparr>os_j := os_j st + 1, os_sample_set := ?S,
                    os_disagree := set_disagree g ?c ?S (os_disagree st),
                    os_ancestor := (os_ancestor st)[l := ?c], os_last_site := l\<rparr>"
    from Cons.prems g False have l: "l < length (os_ancestor st)"
      and rest: "older_sites_loop self m ls ?st' = Inr out"
      by (auto simp: Let_def split: if_splits)
    from Cons.IH [OF rest] obtain k where k: "k \<le> length ls"
      "os_j out = os_j ?st' + k"
      "os_last_site out = last (os_last_site ?st' # take k ls)"
      "length (os_ancestor out) = length (os_ancestor ?st')"
      "\<forall>i. i \<notin> set (take k ls) \<longrightarrow> os_ancestor out ! i = os_ancestor ?st' ! i"
      "\<forall>i\<in>set (take k ls). os_ancestor out ! i = 0 \<or> os_ancestor out ! i = 1"
      by blast
    have at_l: "os_ancestor out ! l = 0 \<or> os_ancestor out ! l = 1"
    proof (cases "l \<in> set (take k ls)")
      case True
      with k(6) show ?thesis by simp
    next
      case False
      with k(5) have "os_ancestor out ! l = os_ancestor ?st' ! l" by simp
      with l compute_consensus_cases [of g "os_sample_set st"] show ?thesis by simp
    qed
    show ?thesis
    proof (intro exI [of _ "Suc k"] conjI)
      show "Suc k \<le> length (l # ls)" using k(1) by simp
      show "os_j out = os_j st + Suc k" using k(2) by simp
      show "os_last_site out = last (os_last_site st # take (Suc k) (l # ls))"
        using k(3) by simp
      show "length (os_ancestor out) = length (os_ancestor st)" using k(4) by simp
      show "\<forall>i. i \<notin> set (take (Suc k) (l # ls)) \<longrightarrow> os_ancestor out ! i = os_ancestor st ! i"
        using k(5) by auto
      show "\<forall>i\<in>set (take (Suc k) (l # ls)). os_ancestor out ! i = 0 \<or> os_ancestor out ! i = 1"
        using k(6) at_l by auto
    qed
  qed
qed

lemma older_sites_loop_succeeds:
  assumes "\<forall>l\<in>set older. site_genotypes_buf self l \<noteq> None \<and> l < length (os_ancestor st)"
  shows "\<exists>out. older_sites_loop self m older st = Inr out"
  using assms
proof (induction older arbitrary: st)
  case Nil
  then show ?case by simp
next
  case (Cons l ls)
  then obtain g where g: "site_genotypes_buf self l = Some g" by auto
  let ?c = "compute_consensus g (os_sample_set st)"
  let ?S = "repack (mark_removed (os_disagree st) g ?c (os_sample_set st))"
  let ?st' = "st\<lparr>os_j := os_j st + 1, os_sample_set := ?S,
                  os_disagree := set_disagree g ?c ?S (os_disagree st),
                  os_ancestor := (os_ancestor st)[l := ?c], os_last_site := l\<rparr>"
  have "\<exists>out. older_sites_loop self m ls ?st' = Inr out"
    using Cons.prems by (intro Cons.IH) simp
  with g Cons.prems show ?case by (simp add: Let_def)
qed

lemma fill_younger_length [simp]: "length (fill_younger self f ls a) = length a"
proof -
  have "length (fold (\<lambda>l a. if site_frequency (sites self ! l) \<le> f then a[l := 0] else a) ls a)
          = length a" for a :: "allele_t list"
    by (induction ls arbitrary: a) auto
  then show ?thesis by (simp add: fill_younger_def)
qed

lemma fill_younger_nth:
  assumes "i < length a"
  shows "fill_younger self f ls a ! i =
           (if i \<in> set ls \<and> site_frequency (sites self ! i) \<le> f then 0 else a ! i)"
proof -
  let ?step = "\<lambda>l (a :: allele_t list). if site_frequency (sites self ! l) \<le> f then a[l := 0] else a"
  have len: "length (fold ?step ls a) = length a" for ls and a :: "allele_t list"
    by (induction ls arbitrary: a) auto
  have "i < length a \<Longrightarrow> fold ?step ls a ! i =
           (if i \<in> set ls \<and> site_frequency (sites self ! i) \<le> f then 0 else a ! i)" for a
  proof (induction ls arbitrary: a)
    case Nil
    then show ?case by simp
  next
    case (Cons l ls)
    have "fold ?step (l # ls) a ! i = fold ?step ls (?step l a) ! i" by simp
    also have "\<dots> = (if i \<in> set ls \<and> site_frequency (sites self ! i) \<le> f then 0
                      else ?step l a ! i)"
      using Cons.prems by (intro Cons.IH) simp
    finally show ?case using Cons.prems by (cases "l = i") auto
  qed
  with assms show ?thesis by (simp add: fill_younger_def)
qed

lemma take_sorted_wrt_set:
  assumes sorted: "sorted_wrt R ys" and asym: "\<And>x y. R x y \<Longrightarrow> \<not> R y x"
    and k: "0 < k" "k \<le> length ys"
  shows "set (take k ys) = {y \<in> set ys. y = ys ! (k - 1) \<or> R y (ys ! (k - 1))}"
proof (intro set_eqI iffI)
  fix y assume "y \<in> set (take k ys)"
  then obtain i where i: "i < k" "y = ys ! i" using k by (auto simp: in_set_conv_nth)
  with k have iy: "i < length ys" by simp
  show "y \<in> {y \<in> set ys. y = ys ! (k - 1) \<or> R y (ys ! (k - 1))}"
  proof (cases "i = k - 1")
    case True
    with i iy show ?thesis by simp
  next
    case False
    with i k have "i < k - 1" "k - 1 < length ys" by simp_all
    with sorted have "R (ys ! i) (ys ! (k - 1))" by (simp add: sorted_wrt_iff_nth_less)
    with i iy show ?thesis by simp
  qed
next
  fix y assume "y \<in> {y \<in> set ys. y = ys ! (k - 1) \<or> R y (ys ! (k - 1))}"
  then obtain i where i: "i < length ys" "y = ys ! i" "y = ys ! (k - 1) \<or> R y (ys ! (k - 1))"
    by (auto simp: in_set_conv_nth)
  have "i < k"
  proof (rule ccontr)
    assume "\<not> i < k"
    with k have "k - 1 < i" by simp
    with sorted i(1) have r: "R (ys ! (k - 1)) (ys ! i)" by (simp add: sorted_wrt_iff_nth_less)
    with asym have "\<not> R (ys ! i) (ys ! (k - 1))" by blast
    moreover have "ys ! i \<noteq> ys ! (k - 1)"
    proof
      assume "ys ! i = ys ! (k - 1)"
      with r have "R (ys ! i) (ys ! i)" by simp
      with asym show False by blast
    qed
    ultimately show False using i(2,3) by simp
  qed
  with i k show "y \<in> set (take k ys)" by (auto simp: in_set_conv_nth)
qed

lemma last_take_Cons:
  "k \<le> length ys \<Longrightarrow> last (x # take k ys) = (if k = 0 then x else ys ! (k - 1))"
  by (cases k) (simp_all add: last_conv_nth take_Suc_conv_app_nth)

lemma side_result:
  fixes R :: "nat \<Rightarrow> nat \<Rightarrow> bool"
  assumes loop: "older_sites_loop self m (filter P rng) st = Inr out"
    and P: "\<And>l. P l = (f < site_frequency (sites self ! l))"
    and sorted: "sorted_wrt R rng" and asym: "\<And>x y. R x y \<Longrightarrow> \<not> R y x"
    and before: "\<And>x. x \<in> set rng \<Longrightarrow> R (os_last_site st) x"
    and fill: "os_last_site out = os_last_site st \<or> os_last_site out \<in> set rng
                 \<Longrightarrow> set fillrange = {x \<in> set rng. R x (os_last_site out)}"
  defines "a' \<equiv> fill_younger self f fillrange (os_ancestor out)"
  defines "inside \<equiv> \<lambda>i. i \<in> set rng \<and> (i = os_last_site out \<or> R i (os_last_site out))"
  shows "length a' = length (os_ancestor st)"
    and "os_last_site out = os_last_site st \<or> os_last_site out \<in> set rng"
    and "\<forall>i<length a'. inside i \<longrightarrow> a' ! i = 0 \<or> a' ! i = 1"
    and "\<forall>i<length a'. \<not> inside i \<longrightarrow> a' ! i = os_ancestor st ! i"
proof -
  let ?ys = "filter P rng"
  let ?last = "os_last_site out"
  let ?focal = "os_last_site st"
  from older_sites_loop_written [OF loop] obtain k where k: "k \<le> length ?ys"
    "?last = last (?focal # take k ?ys)"
    "length (os_ancestor out) = length (os_ancestor st)"
    "\<forall>i. i \<notin> set (take k ?ys) \<longrightarrow> os_ancestor out ! i = os_ancestor st ! i"
    "\<forall>i\<in>set (take k ?ys). os_ancestor out ! i = 0 \<or> os_ancestor out ! i = 1"
    by blast
  have sorted': "sorted_wrt R ?ys" using sorted by (rule sorted_wrt_filter)
  have irrefl: "\<not> R x x" for x using asym by blast
  have focal_out: "?focal \<notin> set rng" using before irrefl by blast
  have last: "?last = (if k = 0 then ?focal else ?ys ! (k - 1))"
    unfolding k(2) by (rule last_take_Cons [OF k(1)])
  have W: "set (take k ?ys) = {x \<in> set rng. P x \<and> (x = ?last \<or> R x ?last)}"
  proof (cases "k = 0")
    case True
    with last have "?last = ?focal" by simp
    moreover have "\<not> (x = ?focal \<or> R x ?focal)" if "x \<in> set rng" for x
      using that before [OF that] asym focal_out by blast
    ultimately show ?thesis using True by auto
  next
    case False
    with last have l: "?last = ?ys ! (k - 1)" by simp
    from take_sorted_wrt_set [OF sorted' asym _ k(1)] False
    have "set (take k ?ys) = {y \<in> set ?ys. y = ?ys ! (k - 1) \<or> R y (?ys ! (k - 1))}" by simp
    with l show ?thesis by auto
  qed
  show len: "length a' = length (os_ancestor st)" by (simp add: a'_def k(3))
  show lastin: "?last = ?focal \<or> ?last \<in> set rng"
  proof (cases "k = 0")
    case True
    with last show ?thesis by simp
  next
    case False
    with k(1) have "?ys ! (k - 1) \<in> set ?ys" by (intro nth_mem) simp
    with last False show ?thesis by simp
  qed
  have Plast: "P ?last" if "?last \<in> set rng"
  proof (cases "k = 0")
    case True
    with last that focal_out show ?thesis by simp
  next
    case False
    with k(1) have "?ys ! (k - 1) \<in> set ?ys" by (intro nth_mem) simp
    with last False show ?thesis by simp
  qed
  have nth: "a' ! i = (if i \<in> set rng \<and> R i ?last \<and> \<not> P i then 0 else os_ancestor out ! i)"
    if "i < length a'" for i
    using that fill_younger_nth [of i "os_ancestor out" self f fillrange] fill [OF lastin] P len k(3)
    by (auto simp: a'_def)
  show "\<forall>i<length a'. inside i \<longrightarrow> a' ! i = 0 \<or> a' ! i = 1"
  proof (intro allI impI)
    fix i assume i: "i < length a'" "inside i"
    show "a' ! i = 0 \<or> a' ! i = 1"
    proof (cases "P i")
      case True
      with i(2) W have "i \<in> set (take k ?ys)" by (simp add: inside_def)
      with k(5) nth [OF i(1)] True show ?thesis by simp
    next
      case False
      with i(2) Plast have "i \<in> set rng" "R i ?last" by (auto simp: inside_def)
      with nth [OF i(1)] False show ?thesis by simp
    qed
  qed
  show "\<forall>i<length a'. \<not> inside i \<longrightarrow> a' ! i = os_ancestor st ! i"
  proof (intro allI impI)
    fix i assume i: "i < length a'" "\<not> inside i"
    then have "i \<notin> set (take k ?ys)" using W by (auto simp: inside_def)
    with k(4) have "os_ancestor out ! i = os_ancestor st ! i" by simp
    moreover from i(2) have "\<not> (i \<in> set rng \<and> R i ?last)" by (auto simp: inside_def)
    ultimately show "a' ! i = os_ancestor st ! i" using nth [OF i(1)] by auto
  qed
qed

lemma next_outcome_ok:
  assumes "list_all (\<lambda>ok. ok) (take (Suc n) mem)"
  shows "fst (next_outcome mem)" "list_all (\<lambda>ok. ok) (take n (snd (next_outcome mem)))"
  using assms by (cases mem; simp)+

lemma four_outcomes_ok:
  assumes "list_all (\<lambda>ok. ok) (take 4 mem)"
  obtains m1 m2 m3 m4 where "next_outcome mem = (True, m1)" "next_outcome m1 = (True, m2)"
    "next_outcome m2 = (True, m3)" "next_outcome m3 = (True, m4)"
proof -
  have 4: "(4::nat) = Suc (Suc (Suc (Suc 0)))" by simp
  note a = next_outcome_ok [OF assms [unfolded 4]]
  note b = next_outcome_ok [OF a(2)]
  note c = next_outcome_ok [OF b(2)]
  note d = next_outcome_ok [OF c(2)]
  show thesis
    using a(1) b(1) c(1) d(1)
    by (intro that [of "snd (next_outcome mem)" "snd (next_outcome (snd (next_outcome mem)))"
          "snd (next_outcome (snd (next_outcome (snd (next_outcome mem)))))"
          "snd (next_outcome (snd (next_outcome (snd (next_outcome (snd (next_outcome mem)))))))"])
       (simp_all add: prod_eq_iff)
qed

lemma make_ancestor_wf:
  assumes len: "length (sites self) = num_sites self"
    and bufs: "\<forall>l<num_sites self. 2 \<le> site_frequency (sites self ! l)
                 \<longrightarrow> site_genotypes_buf self l \<noteq> None"
    and focal: "focal < num_sites self" "2 \<le> site_frequency (sites self ! focal)"
    and buf: "length ancestor = num_sites self"
    and ok: "list_all (\<lambda>ok. ok) (take 4 mem)"
  shows "\<exists>start end a.
           ancestor_builder_make_ancestor mem self (focal # rest) ancestor = Inr (start, end, a) \<and>
           start \<le> focal \<and> focal < end \<and> end \<le> num_sites self \<and>
           length a = num_sites self \<and> a ! focal = 1 \<and>
           (\<forall>i. start \<le> i \<and> i < end \<longrightarrow> a ! i = 0 \<or> a ! i = 1) \<and>
           (\<forall>i<num_sites self. i < start \<or> end \<le> i \<longrightarrow> a ! i = 255)"
proof -
  let ?n = "num_sites self"
  let ?f = "site_frequency (sites self ! focal)"
  let ?P = "\<lambda>l. ?f < site_frequency (sites self ! l)"
  let ?a0 = "(memset ancestor 255 ?n)[focal := 1]"
  let ?right = "[focal + 1 ..< ?n]"
  let ?left = "rev [0 ..< focal]"
  from ok obtain m1 m2 m3 m4 where mem: "next_outcome mem = (True, m1)" "next_outcome m1 = (True, m2)"
    "next_outcome m2 = (True, m3)" "next_outcome m3 = (True, m4)"
    by (rule four_outcomes_ok)
  have a0: "?a0 = (replicate ?n 255)[focal := 1]" using buf by (simp add: memset_def)
  have a0_len: "length ?a0 = ?n" by (simp add: a0)
  from bufs focal obtain g where g: "site_genotypes_buf self focal = Some g" by auto
  define S where "S = map int (filter (\<lambda>j. g ! j = 1) [0 ..< num_samples self])"
  have samples: "ancestor_builder_get_consistent_samples self focal = Inr S"
    by (simp add: ancestor_builder_get_consistent_samples_def g S_def)
  have older_ok: "site_genotypes_buf self l \<noteq> None \<and> l < ?n" if "l < ?n" "?P l" for l
    using that bufs focal(2) by auto
  let ?st0 = "older_entry_state self focal ?a0 S"
  have "\<exists>out. older_sites_loop self (length S div 2) (filter ?P ?right) ?st0 = Inr out"
    using older_ok a0_len by (intro older_sites_loop_succeeds) (auto simp: older_entry_state_def)
  then obtain st1 where st1: "older_sites_loop self (length S div 2) (filter ?P ?right) ?st0 = Inr st1"
    by blast
  let ?last1 = "os_last_site st1"
  let ?a1 = "fill_younger self ?f [focal + 1 ..< ?last1] (os_ancestor st1)"
  have st0: "os_last_site ?st0 = focal" "os_ancestor ?st0 = ?a0" by (simp_all add: older_entry_state_def)
  have R: "length ?a1 = length (os_ancestor ?st0)"
    "?last1 = os_last_site ?st0 \<or> ?last1 \<in> set ?right"
    "\<forall>i<length ?a1. (i \<in> set ?right \<and> (i = ?last1 \<or> i < ?last1)) \<longrightarrow> ?a1 ! i = 0 \<or> ?a1 ! i = 1"
    "\<forall>i<length ?a1. \<not> (i \<in> set ?right \<and> (i = ?last1 \<or> i < ?last1)) \<longrightarrow> ?a1 ! i = os_ancestor ?st0 ! i"
    by (rule side_result [OF st1, where R = "(<)" and f = ?f and fillrange = "[focal + 1 ..< ?last1]"];
        (auto simp: st0)[1])+
  let ?st0' = "older_entry_state self focal ?a1 S"
  have a1_len: "length ?a1 = ?n" using R(1) st0 a0_len by simp
  have "\<exists>out. older_sites_loop self (length S div 2) (filter ?P ?left) ?st0' = Inr out"
    using older_ok a1_len focal(1) by (intro older_sites_loop_succeeds) (auto simp: older_entry_state_def)
  then obtain st2 where st2: "older_sites_loop self (length S div 2) (filter ?P ?left) ?st0' = Inr st2"
    by blast
  let ?last2 = "os_last_site st2"
  let ?a2 = "fill_younger self ?f [?last2 + 1 ..< focal] (os_ancestor st2)"
  have st0': "os_last_site ?st0' = focal" "os_ancestor ?st0' = ?a1" by (simp_all add: older_entry_state_def)
  have L: "length ?a2 = length (os_ancestor ?st0')"
    "?last2 = os_last_site ?st0' \<or> ?last2 \<in> set ?left"
    "\<forall>i<length ?a2. (i \<in> set ?left \<and> (i = ?last2 \<or> i > ?last2)) \<longrightarrow> ?a2 ! i = 0 \<or> ?a2 ! i = 1"
    "\<forall>i<length ?a2. \<not> (i \<in> set ?left \<and> (i = ?last2 \<or> i > ?last2)) \<longrightarrow> ?a2 ! i = os_ancestor ?st0' ! i"
    by (rule side_result [OF st2, where R = "(>)" and f = ?f and fillrange = "[?last2 + 1 ..< focal]"];
        (auto simp: older_entry_state_def sorted_wrt_rev)[1])+
  have run: "ancestor_builder_make_ancestor mem self (focal # rest) ancestor
               = Inr (?last2, ?last1 + 1, ?a2)"
    using mem focal(1) len buf samples st1 st2
    by (simp add: ancestor_builder_make_ancestor_def ancestor_builder_compute_older_sites_def Let_def)
  have a2_len: "length ?a2 = ?n" using L(1) st0' a1_len by simp
  have last1: "focal \<le> ?last1" "?last1 < ?n" using R(2) st0 focal(1) by auto
  have last2: "?last2 \<le> focal" using L(2) st0' by auto
  have a0_nth: "?a0 ! i = (if i = focal then 1 else 255)" if "i < ?n" for i
    using that by (simp add: a0 nth_list_update)
  have a1_nth: "?a1 ! i = ?a0 ! i" if "i < ?n" "\<not> (focal < i \<and> i \<le> ?last1)" for i
  proof -
    from that have "i < length ?a1" "\<not> (i \<in> set ?right \<and> (i = ?last1 \<or> i < ?last1))"
      using a1_len by auto
    then have "?a1 ! i = os_ancestor ?st0 ! i" by (rule R(4) [rule_format])
    then show ?thesis by (simp only: st0)
  qed
  have a1_in: "?a1 ! i = 0 \<or> ?a1 ! i = 1" if "focal < i" "i \<le> ?last1" for i
  proof -
    from that last1 have "i < length ?a1" "i \<in> set ?right \<and> (i = ?last1 \<or> i < ?last1)"
      using a1_len by auto
    then show ?thesis by (rule R(3) [rule_format])
  qed
  have a2_nth: "?a2 ! i = ?a1 ! i" if "i < ?n" "\<not> (?last2 \<le> i \<and> i < focal)" for i
  proof -
    from that have "i < length ?a2" "\<not> (i \<in> set ?left \<and> (i = ?last2 \<or> i > ?last2))"
      using a2_len by auto
    then have "?a2 ! i = os_ancestor ?st0' ! i" by (rule L(4) [rule_format])
    then show ?thesis by (simp only: st0')
  qed
  have a2_in: "?a2 ! i = 0 \<or> ?a2 ! i = 1" if "?last2 \<le> i" "i < focal" for i
  proof -
    from that focal(1) have "i < length ?a2" "i \<in> set ?left \<and> (i = ?last2 \<or> i > ?last2)"
      using a2_len by auto
    then show ?thesis by (rule L(3) [rule_format])
  qed
  have at_focal: "?a2 ! focal = 1"
    using a2_nth [of focal] a1_nth [of focal] a0_nth [of focal] focal(1) by simp
  have inside: "?a2 ! i = 0 \<or> ?a2 ! i = 1" if "?last2 \<le> i" "i < ?last1 + 1" for i
  proof -
    consider "i < focal" | "i = focal" | "focal < i" by linarith
    then show ?thesis
    proof cases
      case 1
      with that a2_in show ?thesis by simp
    next
      case 2
      with at_focal show ?thesis by simp
    next
      case 3
      with that last1 have "i < ?n" by simp
      with a2_nth [of i] 3 a1_in [of i] that show ?thesis by simp
    qed
  qed
  have outside: "?a2 ! i = 255" if "i < ?n" "i < ?last2 \<or> ?last1 + 1 \<le> i" for i
  proof -
    from that last1 last2 have ne: "i \<noteq> focal" "\<not> (?last2 \<le> i \<and> i < focal)"
      "\<not> (focal < i \<and> i \<le> ?last1)" by auto
    with a2_nth [of i] a1_nth [of i] a0_nth [of i] that(1) show ?thesis by simp
  qed
  show ?thesis
    using run last1 last2 a2_len at_focal inside outside
    by (intro exI [of _ ?last2] exI [of _ "?last1 + 1"] exI [of _ ?a2]) simp
qed

lemma calls_bound:
  assumes alloc: "ancestor_builder_alloc mem ns m fl = Inr b0"
    and run: "add_sites calls b0 = Inr b"
    and once: "distinct (map fst calls)"
    and size: "m < 2 ^ 64"
  shows "length calls < 2 ^ 64"
proof -
  note a = alloc_fields [OF alloc]
  have range: "\<forall>l\<in>fst ` set calls. l < m"
    using calls_in_range [OF alloc_inv [OF alloc] run] a(2) by simp
  have "length calls = card (fst ` set calls)"
    using once by (metis distinct_card length_map set_map)
  also have "\<dots> \<le> card {..<m}"
    using range by (intro card_mono) auto
  finally show ?thesis using size by simp
qed

lemma focal_site_facts:
  assumes alloc: "ancestor_builder_alloc mem ns m fl = Inr b0"
    and run: "add_sites calls b0 = Inr b"
    and once: "distinct (map fst calls)"
    and fin: "ancestor_builder_finalise ok b = Inr b'"
    and size: "m < 2 ^ 64"
    and focal: "focal \<in> set (all_focal_sites b')"
  shows "focal < num_sites b'" "2 \<le> site_frequency (sites b' ! focal)"
proof -
  note a = alloc_fields [OF alloc]
  have inv0: "builder_inv b0" by (rule alloc_inv [OF alloc])
  note r = reachable_facts [OF alloc run]
  note f = finalised_facts [OF alloc run fin calls_bound [OF alloc run once size]]
  have frame: "sites b' = sites b" "num_sites b' = m"
    using f(3) r(6) by (simp_all add: finalise_frame_def)
  from focal f(5) have older: "focal \<in> set (older_calls calls)" by (metis set_mset_mset)
  then have "focal \<in> fst ` set calls" by (auto simp: older_calls_def)
  with calls_in_range [OF inv0 run] a(2) have lt: "focal < m" by auto
  then show "focal < num_sites b'" by (simp add: frame)
  have "site_frequency (sites b ! focal) =
          (case map_of calls focal of None \<Rightarrow> site_frequency (sites b0 ! focal) | Some (f, g) \<Rightarrow> f)"
    using lt a(2) by (intro site_frequency_add_sites [OF inv0 run once]) simp
  with older older_calls_iff [OF once, of focal] frame(1)
  show "2 \<le> site_frequency (sites b' ! focal)" by auto
qed

lemma finalised_well_formed:
  assumes alloc: "ancestor_builder_alloc mem ns m fl = Inr b0"
    and run: "add_sites calls b0 = Inr b"
    and fin: "ancestor_builder_finalise ok b = Inr b'"
    and bound: "length calls < 2 ^ 64"
  shows "length (sites b') = num_sites b'"
    and "\<forall>l<num_sites b'. 2 \<le> site_frequency (sites b' ! l) \<longrightarrow> site_genotypes_buf b' l \<noteq> None"
proof -
  note r = reachable_facts [OF alloc run]
  note f = finalised_facts [OF alloc run fin bound]
  have frame: "sites b' = sites b" "num_sites b' = num_sites b" "gstore b' = gstore b"
    using f(3) by (simp_all add: finalise_frame_def)
  from r(1) have len: "length (sites b) = num_sites b" by (simp add: builder_inv_def)
  then show "length (sites b') = num_sites b'" by (simp add: frame)
  show "\<forall>l<num_sites b'. 2 \<le> site_frequency (sites b' ! l) \<longrightarrow> site_genotypes_buf b' l \<noteq> None"
  proof (intro allI impI)
    fix l assume l: "l < num_sites b'" "2 \<le> site_frequency (sites b' ! l)"
    then have mem: "sites b ! l \<in> set (sites b)" using len frame by simp
    with r(1) l(2) frame(1) obtain a where
      a: "site_genotypes (sites b ! l) = Some a" "a < length (gstore b)"
      unfolding builder_inv_def by fastforce
    show "site_genotypes_buf b' l \<noteq> None"
      using l(1) len a by (simp add: site_genotypes_buf_def frame)
  qed
qed

text \<open>
  Claim C1. On a builder obtained by alloc, calls of add site with pairwise different sites,
  and finalise, for every focal site of an emitted descriptor and a buffer of \<^verbatim>\<open>num_sites\<close>
  alleles, make ancestor called with this single focal site (its four allocations succeeding)
  returns \<^verbatim>\<open>start\<close> and \<^verbatim>\<open>end\<close> with \<^verbatim>\<open>start \<le> focal_site < end \<le> num_sites\<close>;
  the ancestor has 1 at the focal site, 0 or 1 at every index of \<^verbatim>\<open>[start, end)\<close>, and the
  unknown allele (-1, the byte 0xFF) at every other index.
\<close>

theorem make_ancestor_guarantees:
  assumes alloc: "ancestor_builder_alloc mem ns m fl = Inr b0"
    and run: "add_sites calls b0 = Inr b"
    and once: "distinct (map fst calls)"
    and fin: "ancestor_builder_finalise ok b = Inr b'"
    and size: "m < 2 ^ 64"
    and d: "d \<in> set (emitted b')" "focal \<in> set (descriptor_focal_sites b' d)"
    and buf: "length ancestor = num_sites b'"
    and allocs: "list_all (\<lambda>ok. ok) (take 4 mem')"
  shows "\<exists>start end a.
           ancestor_builder_make_ancestor mem' b' [focal] ancestor = Inr (start, end, a) \<and>
           start \<le> focal \<and> focal < end \<and> end \<le> num_sites b' \<and>
           length a = num_sites b' \<and> a ! focal = 1 \<and>
           (\<forall>i. start \<le> i \<and> i < end \<longrightarrow> a ! i = 0 \<or> a ! i = 1) \<and>
           (\<forall>i<num_sites b'. i < start \<or> end \<le> i \<longrightarrow> a ! i = 255)"
proof -
  from d have focal: "focal \<in> set (all_focal_sites b')" by (auto simp: all_focal_sites_def)
  note ff = focal_site_facts [OF alloc run once fin size focal]
  note wf = finalised_well_formed [OF alloc run fin calls_bound [OF alloc run once size]]
  show ?thesis by (rule make_ancestor_wf [OF wf ff buf allocs])
qed

lemma example_make_ancestor:
  "ancestor_builder_make_ancestor [] example_finalised [0] [0, 0, 0, 0, 0]
     = Inr (0, 4, [1, 1, 1, 1, 255])"
  by (simp add: ancestor_builder_make_ancestor_def memset_def fill_younger_def
        ancestor_builder_get_consistent_samples_def example_finalised_def older_ev
        upt_conv_Cons)

theorem make_ancestor_guarantees_witness:
  "distinct (map fst example_calls) \<and>
   \<lparr>d_frequency = 3, d_num_focal_sites = 1, d_focal_sites = Some (2, 0)\<rparr>
     \<in> set (emitted example_finalised) \<and>
   descriptor_focal_sites example_finalised
     \<lparr>d_frequency = 3, d_num_focal_sites = 1, d_focal_sites = Some (2, 0)\<rparr> = [0] \<and>
   ancestor_builder_make_ancestor [] example_finalised [0] [0, 0, 0, 0, 0]
     = Inr (0, 4, [1, 1, 1, 1, 255]) \<and>
   [1, 1, 1, 1, 255 :: allele_t] ! 0 = 1 \<and> [1, 1, 1, 1, 255 :: allele_t] ! 4 = 255"
proof -
  let ?d = "\<lparr>d_frequency = 3, d_num_focal_sites = 1, d_focal_sites = Some (2, 0)\<rparr>"
  have h: "distinct (map fst example_calls)" by (simp add: example_calls_def)
  have s: "(5::nat) < 2 ^ 64" by simp
  have d: "?d \<in> set (emitted example_finalised)"
    by (simp add: emitted_def example_finalised_def example_builder_def)
  have fs: "descriptor_focal_sites example_finalised ?d = [0]"
    by (simp add: descriptor_focal_sites_def example_finalised_def example_builder_def)
  then have f: "0 \<in> set (descriptor_focal_sites example_finalised ?d)" by simp
  have n: "num_sites example_finalised = 5"
    by (simp add: example_finalised_def example_builder_def)
  have buf: "length [0, 0, 0, 0, 0 :: allele_t] = num_sites example_finalised"
    by (simp add: n)
  have allocs: "list_all (\<lambda>ok. ok) (take 4 [])" by simp
  from make_ancestor_guarantees [OF example_built(1) example_built(2) h example_finalise s d f
      buf allocs]
  obtain start "end" a where
    r: "ancestor_builder_make_ancestor [] example_finalised [0] [0, 0, 0, 0, 0] = Inr (start, end, a)"
    and focal: "a ! 0 = 1"
    and outside: "\<forall>i<num_sites example_finalised. i < start \<or> end \<le> i \<longrightarrow> a ! i = 255"
    by blast
  from r example_make_ancestor have v: "start = 0" "end = 4" "a = [1, 1, 1, 1, 255]" by simp_all
  from outside [rule_format, of 4] have "a ! 4 = 255" by (simp add: n v(1, 2))
  with h d fs r focal show ?thesis by (simp add: v)
qed

end
